theory Spec2Isabelle
  imports Complex_Main "HOL-Library.Log_Nat"
begin

section \<open>Double-precision arithmetic\<close>

text \<open>
  The sources compute with JavaScript numbers, IEEE 754 binary64 values. A finite double is
  modelled by the real number it denotes, and an arithmetic operation of the source by the
  exact operation followed by \<open>rnd\<close>, rounding to the nearest double with ties to the even
  significand. \<open>binade x\<close> is the exponent \<open>e\<close> with \<open>2^e \<le> x < 2^(e+1)\<close> for positive
  \<open>x\<close>; the spacing of doubles around \<open>x\<close> is \<open>quantum x\<close>, 52 binary places below that
  exponent and never below \<open>2^-1074\<close> (subnormal numbers). A decimal literal \<open>c\<close> of the
  source denotes \<open>rnd c\<close>. Results beyond the largest finite double (\<open>Infinity\<close>) and
  \<open>NaN\<close> are not represented.
\<close>

definition binade :: "real \<Rightarrow> int" where
  "binade x = (if 1 \<le> x then bitlen \<lfloor>x\<rfloor> - 1 else - bitlen (\<lceil>1 / x\<rceil> - 1))"

definition round_even :: "real \<Rightarrow> int" where
  "round_even y =
     (if y - of_int \<lfloor>y\<rfloor> < 1 / 2 then \<lfloor>y\<rfloor>
      else if y - of_int \<lfloor>y\<rfloor> > 1 / 2 then \<lfloor>y\<rfloor> + 1
      else if even \<lfloor>y\<rfloor> then \<lfloor>y\<rfloor> else \<lfloor>y\<rfloor> + 1)"

definition quantum :: "real \<Rightarrow> real" where
  "quantum x = 2 powi (max (binade \<bar>x\<bar>) (- 1022) - 52)"

definition rnd :: "real \<Rightarrow> real" where
  "rnd x = (if x = 0 then 0 else of_int (round_even (x / quantum x)) * quantum x)"

section \<open>Range Merger: \<open>processDetections\<close> (src/hooks/useVisionEngine.ts)\<close>

text \<open>
  Timestamps are media times in seconds, doubles in the source. A \<open>DetectionRange\<close> is the
  source's interface of that name; the field \<open>end\<close> is written \<open>end'\<close> because \<open>end\<close>
  is reserved.
\<close>

record DetectionRange =
  start :: real
  end' :: real
  confidence :: real

text \<open>The constant \<open>TOLERANCE\<close> of \<open>processDetections\<close>.\<close>

definition TOLERANCE :: real where
  "TOLERANCE = 0.5"

text \<open>
  The \<open>for\<close> loop of \<open>processDetections\<close> together with the push that follows it: \<open>st\<close> and
  \<open>prev\<close> are the loop variables \<open>start\<close> and \<open>prev\<close>, the list argument holds
  \<open>sorted[i], sorted[i+1], ...\<close>, and \<open>ranges\<close> is the array being built. The test
  \<open>curr - prev > TOLERANCE\<close> compares the rounded difference.
\<close>

fun scan :: "real \<Rightarrow> real \<Rightarrow> real list \<Rightarrow> DetectionRange list \<Rightarrow> DetectionRange list" where
  "scan st prev [] ranges = ranges @ [\<lparr>start = st, end' = prev, confidence = 1.0\<rparr>]"
| "scan st prev (cur # rest) ranges =
     (if rnd (cur - prev) > TOLERANCE
      then scan cur cur rest (ranges @ [\<lparr>start = st, end' = prev, confidence = 1.0\<rparr>])
      else scan st cur rest ranges)"

text \<open>
  \<open>[...timestamps].sort((a, b) => a - b)\<close> is an ascending numeric sort of a copy (the
  difference of two doubles has the sign of the exact difference); the loop starts at index 1
  with \<open>start = prev = sorted[0]\<close>.
\<close>

definition processDetections :: "real list \<Rightarrow> DetectionRange list" where
  "processDetections timestamps =
     (if length timestamps = 0 then []
      else let sorted = sort timestamps
           in scan (sorted ! 0) (sorted ! 0) (drop 1 sorted) [])"

text \<open>A timestamp lies within the closed interval of a range.\<close>

definition covers :: "DetectionRange \<Rightarrow> real \<Rightarrow> bool" where
  "covers r t = (start r \<le> t \<and> t \<le> end' r)"

text \<open>The boundary points of a list of ranges, in order: start and end of each range.\<close>

definition endpoints :: "DetectionRange list \<Rightarrow> real list" where
  "endpoints rs = concat (map (\<lambda>r. [start r, end' r]) rs)"

text \<open>
  The shape of every output (lemma \<open>processDetections_merged\<close>): each range is ordered and
  has confidence 1, a later range starts more than the tolerance after an earlier one ends,
  and between neighbours the rounded difference exceeds the tolerance as well.
\<close>

definition merged :: "DetectionRange list \<Rightarrow> bool" where
  "merged rs = ((\<forall>r \<in> set rs. start r \<le> end' r \<and> confidence r = 1) \<and>
                sorted_wrt (\<lambda>r r'. start r' - end' r > TOLERANCE) rs \<and>
                successively (\<lambda>r r'. rnd (start r' - end' r) > TOLERANCE) rs)"

subsection \<open>The same function over an explicit store\<close>

text \<open>
  Arrays of numbers live in a store and are named by their index in it. The spread
  \<open>[...timestamps]\<close> allocates a new array holding a copy, and \<open>sort\<close> sorts the array it
  is called on in place.
\<close>

type_synonym heap = "real list list"

definition spread :: "nat \<Rightarrow> heap \<Rightarrow> nat \<times> heap" where
  "spread a h = (length h, h @ [h ! a])"

definition sort_in_place :: "nat \<Rightarrow> heap \<Rightarrow> heap" where
  "sort_in_place b h = h[b := sort (h ! b)]"

definition processDetections_heap :: "nat \<Rightarrow> heap \<Rightarrow> DetectionRange list \<times> heap" where
  "processDetections_heap timestamps h =
     (if length (h ! timestamps) = 0 then ([], h)
      else let (sorted, h1) = spread timestamps h;
               h2 = sort_in_place sorted h1
           in (scan (h2 ! sorted ! 0) (h2 ! sorted ! 0) (drop 1 (h2 ! sorted)) [], h2))"

section \<open>Detection orchestrator: \<open>useVisionEngine\<close> (src/hooks/useVisionEngine.ts)\<close>

text \<open>
  The hook is modelled as a transition system. Its state holds the React state
  (\<open>VisionState\<close>), the refs, the shared video element, and, for every call of
  \<open>processVideo\<close>, the objects that call creates and its closures capture. An event is
  one task of the browser's event loop: a call by the caller, a message of a worker, the
  settling of the reference image, an event of the video element, a video frame callback, or
  the effect's cleanup. \<open>setState(prev => ...)\<close> is applied at once, in call order.
\<close>

datatype status = idle | initializing | calibrating | processing | completed | error

record VisionState =
  isProcessing :: bool
  progress :: int
  status :: status
  detections :: "DetectionRange list"

text \<open>Messages of the worker (\<open>e.data.type\<close> with the payload the handler reads).\<close>

datatype worker_message =
    READY
  | CALIBRATION_COMPLETE
  | CALIBRATION_FAILED
  | FRAME_RESULT bool real
  | OTHER

text \<open>Messages handed to \<open>worker.postMessage\<close>; pixel data is left out.\<close>

datatype host_message = INIT | CALIBRATE | PROCESS_FRAME real

text \<open>
  What one call of \<open>processVideo\<close> creates: its arguments, its \<open>AbortController\<close>
  (\<open>aborted\<close> is \<open>signal.aborted\<close>) and its \<open>Worker\<close> (\<open>terminated\<close> records
  \<open>terminate()\<close>, \<open>posted\<close> the calls of \<open>postMessage\<close>). Calls are numbered from 0.
\<close>

record run =
  videoUrl :: string
  referenceImageUrl :: string
  aborted :: bool
  terminated :: bool
  posted :: "host_message list"

text \<open>
  An invocation of \<open>startCalibration\<close> that got past its guard: it waits for the
  reference image, then has posted \<open>CALIBRATE\<close> or has run its \<open>catch\<close>.
\<close>

datatype calibration_phase = AwaitImage | Calibrated | CalibrationCaught

record calibration =
  c_run :: nat
  c_phase :: calibration_phase

text \<open>
  An invocation of \<open>startVideoProcessing\<close> that got a canvas context: it waits for
  \<open>loadeddata\<close>, then for the promise of the processing loop (\<open>frameCount\<close> is the
  local counter of that promise), then has returned; \<open>Rejected\<close> is the promise of the
  invocation rejected by \<open>video.onerror\<close>, which no caller of \<open>startVideoProcessing\<close>
  handles.
\<close>

datatype processing_phase = AwaitLoadedData | AwaitPlayback | Returned | Rejected

record invocation =
  p_run :: nat
  p_phase :: processing_phase
  frameCount :: nat

text \<open>
  The shared video element. The handler properties hold the invocation whose promise
  callbacks were assigned last; \<open>frameCallbacks\<close> are the invocations whose \<open>loop\<close> is
  registered with \<open>requestVideoFrameCallback\<close> for the next frame.
\<close>

record video =
  src :: "string option"
  paused :: bool
  ended :: bool
  duration :: real
  onloadeddata :: "nat option"
  onerror :: "nat option"
  onended :: "nat option"
  frameCallbacks :: "nat list"

text \<open>
  \<open>hasContext\<close>: whether \<open>canvas.getContext('2d')\<close> yields a context. \<open>reported\<close>
  lists the values of \<open>progress\<close> written by \<open>setState\<close> since the latest call of
  \<open>processVideo\<close>, oldest first, each with the place that wrote it: the reset in
  \<open>processVideo\<close>, the frame loop, or the completion in \<open>startVideoProcessing\<close>.
\<close>

datatype report_source = Reset | FromLoop | OnCompletion

record engine =
  state :: VisionState
  rawDetectionsRef :: "real list"
  abortControllerRef :: "nat option"
  workerRef :: "nat option"
  videoElement :: video
  hasContext :: bool
  runs :: "run list"
  calibrations :: "calibration list"
  invocations :: "invocation list"
  reported :: "(report_source \<times> int) list"

datatype event =
    ProcessVideo string string
  | WorkerMessage nat worker_message
  | ImageSettled nat bool
  | LoadedData real
  | VideoError
  | Ended
  | Frame real bool
  | Unmount

text \<open>
  \<open>WorkerMessage r m\<close>: the worker of call \<open>r\<close> posts \<open>m\<close>.
  \<open>ImageSettled c ok\<close>: the reference image awaited by calibration \<open>c\<close> settles; \<open>ok\<close> is
  false when the image fails to load or reading its pixels throws.
  \<open>LoadedData d\<close>: the video fires \<open>loadeddata\<close>, with \<open>video.duration = d\<close>.
  \<open>Frame t ok\<close>: a video frame is presented with \<open>metadata.mediaTime = t\<close>; \<open>ok\<close> is false
  when \<open>drawImage\<close>, \<open>getImageData\<close> or \<open>postMessage\<close> throws for it.
\<close>

definition update_at :: "nat \<Rightarrow> ('a \<Rightarrow> 'a) \<Rightarrow> 'a list \<Rightarrow> 'a list" where
  "update_at i f xs = (if i < length xs then xs[i := f (xs ! i)] else xs)"

definition setState :: "(VisionState \<Rightarrow> VisionState) \<Rightarrow> engine \<Rightarrow> engine" where
  "setState f s = s\<lparr>state := f (state s)\<rparr>"

text \<open>\<open>AbortController.abort()\<close>, \<open>Worker.terminate()\<close>, \<open>Worker.postMessage(m)\<close>.\<close>

definition abort :: "nat \<Rightarrow> engine \<Rightarrow> engine" where
  "abort r s = s\<lparr>runs := update_at r (\<lambda>x. x\<lparr>aborted := True\<rparr>) (runs s)\<rparr>"

definition terminate :: "nat \<Rightarrow> engine \<Rightarrow> engine" where
  "terminate r s = s\<lparr>runs := update_at r (\<lambda>x. x\<lparr>terminated := True\<rparr>) (runs s)\<rparr>"

definition postMessage :: "nat \<Rightarrow> host_message \<Rightarrow> engine \<Rightarrow> engine" where
  "postMessage r m s = s\<lparr>runs := update_at r (\<lambda>x. x\<lparr>posted := posted x @ [m]\<rparr>) (runs s)\<rparr>"

definition signal_aborted :: "nat \<Rightarrow> engine \<Rightarrow> bool" where
  "signal_aborted r s = aborted (runs s ! r)"

text \<open>
  \<open>startCalibration\<close> up to its \<open>await\<close>, and its continuation when the image settles:
  the \<open>try\<close> block ends in \<open>postMessage\<close>, the \<open>catch\<close> sets the status to \<open>error\<close>.
  A missing canvas context throws inside the \<open>try\<close>.
\<close>

definition startCalibration :: "nat \<Rightarrow> engine \<Rightarrow> engine" where
  "startCalibration r s =
     (if signal_aborted r s then s
      else (setState (\<lambda>prev. prev\<lparr>status := calibrating\<rparr>) s)
             \<lparr>calibrations := calibrations s @ [\<lparr>c_run = r, c_phase = AwaitImage\<rparr>]\<rparr>)"

definition imageSettled :: "nat \<Rightarrow> bool \<Rightarrow> engine \<Rightarrow> engine" where
  "imageSettled c ok s =
     (if c < length (calibrations s) \<and> c_phase (calibrations s ! c) = AwaitImage
      then (if ok \<and> hasContext s
            then postMessage (c_run (calibrations s ! c)) CALIBRATE
                   (s\<lparr>calibrations := update_at c (\<lambda>x. x\<lparr>c_phase := Calibrated\<rparr>) (calibrations s)\<rparr>)
            else setState (\<lambda>prev. prev\<lparr>status := error\<rparr>)
                   (s\<lparr>calibrations :=
                        update_at c (\<lambda>x. x\<lparr>c_phase := CalibrationCaught\<rparr>) (calibrations s)\<rparr>))
      else s)"

text \<open>
  \<open>startVideoProcessing\<close> up to its first \<open>await\<close>. Assigning \<open>video.src\<close> loads the new
  resource: the element is paused and no longer ended.
\<close>

definition startVideoProcessing :: "nat \<Rightarrow> engine \<Rightarrow> engine" where
  "startVideoProcessing r s =
     (if signal_aborted r s then s
      else let s1 = setState (\<lambda>prev. prev\<lparr>status := processing\<rparr>) s
           in if \<not> hasContext s1 then s1
              else s1\<lparr>videoElement := (videoElement s1)
                          \<lparr>src := Some (videoUrl (runs s1 ! r)), paused := True, ended := False,
                           onloadeddata := Some (length (invocations s1)),
                           onerror := Some (length (invocations s1))\<rparr>,
                      invocations := invocations s1 @
                          [\<lparr>p_run = r, p_phase = AwaitLoadedData, frameCount = 0\<rparr>]\<rparr>)"

text \<open>
  Its continuation after \<open>loadeddata\<close>: the executor of the loop promise assigns
  \<open>onended\<close> and \<open>onerror\<close>, registers \<open>loop\<close> and calls \<open>video.play()\<close>, which
  is taken to start playback (a rejection of \<open>play()\<close> would be lost in the \<open>async\<close>
  executor). The sizing of the canvas has no bearing on the state kept here.
\<close>

definition beginPlayback :: "nat \<Rightarrow> engine \<Rightarrow> engine" where
  "beginPlayback a s =
     s\<lparr>videoElement := (videoElement s)
          \<lparr>onended := Some a, onerror := Some a,
           frameCallbacks := frameCallbacks (videoElement s) @ [a], paused := False\<rparr>,
       invocations := update_at a (\<lambda>x. x\<lparr>p_phase := AwaitPlayback, frameCount := 0\<rparr>) (invocations s)\<rparr>"

text \<open>
  Its continuation after the loop promise resolves: unless the run was aborted, merge the
  raw detections, publish the final state, terminate the worker and clear \<open>workerRef\<close>.
\<close>

definition finishProcessing :: "nat \<Rightarrow> engine \<Rightarrow> engine" where
  "finishProcessing a s =
     (let r = p_run (invocations s ! a);
          s1 = s\<lparr>invocations := update_at a (\<lambda>x. x\<lparr>p_phase := Returned\<rparr>) (invocations s)\<rparr>
      in if \<not> signal_aborted r s1
         then let ranges = processDetections (rawDetectionsRef s1);
                  s2 = setState (\<lambda>prev. prev\<lparr>status := completed, progress := 100,
                                             isProcessing := False, detections := ranges\<rparr>) s1;
                  s3 = s2\<lparr>reported := reported s2 @ [(OnCompletion, 100)]\<rparr>
              in (terminate r s3)\<lparr>workerRef := None\<rparr>
         else s1)"

text \<open>
  One call of \<open>loop\<close> for invocation \<open>a\<close>. When \<open>ok\<close> is false an exception leaves the
  \<open>try\<close> block before \<open>frameCount++\<close>, and the \<open>catch\<close> only logs. The quotient
  \<open>mediaTime / video.duration\<close> and its product with 100 are each rounded to a double;
  \<open>Math.round\<close> then gives the nearest integer, halves rounded up, as \<open>round\<close> does. (For
  \<open>video.duration = 0\<close> the source computes \<open>NaN\<close> or \<open>Infinity\<close>; the claims below
  take a positive duration. A product beyond the largest double is \<open>Infinity\<close> in the
  source and ends as 100 there as here.)
\<close>

definition loop :: "real \<Rightarrow> bool \<Rightarrow> nat \<Rightarrow> engine \<Rightarrow> engine" where
  "loop mediaTime ok a s =
     (let r = p_run (invocations s ! a)
      in if signal_aborted r s
         then s\<lparr>videoElement := (videoElement s)\<lparr>paused := True\<rparr>\<rparr>
         else if ok
         then let s1 = postMessage r (PROCESS_FRAME mediaTime) s;
                  s2 = s1\<lparr>invocations :=
                            update_at a (\<lambda>x. x\<lparr>frameCount := frameCount x + 1\<rparr>) (invocations s1)\<rparr>;
                  s3 = (if frameCount (invocations s2 ! a) mod 30 = 0
                        then let p = min 100 (round (rnd (rnd (mediaTime / duration (videoElement s2)) * 100)))
                             in (setState (\<lambda>prev. prev\<lparr>progress := p\<rparr>) s2)
                                  \<lparr>reported := reported s2 @ [(FromLoop, p)]\<rparr>
                        else s2)
              in if \<not> paused (videoElement s3) \<and> \<not> ended (videoElement s3)
                 then s3\<lparr>videoElement := (videoElement s3)
                            \<lparr>frameCallbacks := frameCallbacks (videoElement s3) @ [a]\<rparr>\<rparr>
                 else s3
         else s)"

text \<open>The handler \<open>worker.onmessage\<close> of call \<open>r\<close>.\<close>

fun onmessage :: "nat \<Rightarrow> worker_message \<Rightarrow> engine \<Rightarrow> engine" where
  "onmessage r READY s = startCalibration r s"
| "onmessage r CALIBRATION_COMPLETE s = startVideoProcessing r s"
| "onmessage r CALIBRATION_FAILED s = startVideoProcessing r s"
| "onmessage r (FRAME_RESULT detected timestamp) s =
     (if detected then s\<lparr>rawDetectionsRef := rawDetectionsRef s @ [timestamp]\<rparr> else s)"
| "onmessage r OTHER s = s"

text \<open>The body of \<open>processVideo\<close>, in statement order.\<close>

definition processVideo :: "string \<Rightarrow> string \<Rightarrow> engine \<Rightarrow> engine" where
  "processVideo vUrl rUrl s =
     (let s1 = (setState (\<lambda>_. \<lparr>isProcessing = True, progress = 0, status = initializing,
                                 detections = []\<rparr>) s)\<lparr>reported := [(Reset, 0)]\<rparr>;
          s2 = s1\<lparr>rawDetectionsRef := []\<rparr>;
          s3 = (case abortControllerRef s2 of None \<Rightarrow> s2 | Some c \<Rightarrow> abort c s2);
          n = length (runs s3);
          s4 = s3\<lparr>runs := runs s3 @ [\<lparr>videoUrl = vUrl, referenceImageUrl = rUrl,
                                       aborted = False, terminated = False, posted = []\<rparr>],
                  abortControllerRef := Some n\<rparr>;
          s5 = (case workerRef s4 of None \<Rightarrow> s4 | Some w \<Rightarrow> terminate w s4);
          s6 = s5\<lparr>workerRef := Some n\<rparr>
      in postMessage n INIT s6)"

text \<open>The cleanup returned by the effect.\<close>

definition unmount :: "engine \<Rightarrow> engine" where
  "unmount s =
     (let s1 = s\<lparr>videoElement := (videoElement s)\<lparr>paused := True, src := None, ended := False\<rparr>\<rparr>;
          s2 = (case workerRef s1 of None \<Rightarrow> s1 | Some w \<Rightarrow> terminate w s1)
      in case abortControllerRef s2 of None \<Rightarrow> s2 | Some c \<Rightarrow> abort c s2)"

text \<open>
  What the platform does with each event. A terminated worker delivers no further message
  (\<open>terminate()\<close> discards what was queued). An event of the video element calls the handler
  assigned last; resolving or rejecting a promise that is already settled has no effect.
  At the end of playback the element is ended and paused. Frame callbacks are one-shot: the
  registered ones are taken off the list and called, and each registers itself again or not.
\<close>

fun step :: "event \<Rightarrow> engine \<Rightarrow> engine" where
  "step (ProcessVideo vUrl rUrl) s = processVideo vUrl rUrl s"
| "step (WorkerMessage r m) s =
     (if r < length (runs s) \<and> \<not> terminated (runs s ! r) then onmessage r m s else s)"
| "step (ImageSettled c ok) s = imageSettled c ok s"
| "step (LoadedData d) s =
     (let s1 = s\<lparr>videoElement := (videoElement s)\<lparr>duration := d\<rparr>\<rparr>
      in case onloadeddata (videoElement s1) of
           None \<Rightarrow> s1
         | Some a \<Rightarrow> if p_phase (invocations s1 ! a) = AwaitLoadedData then beginPlayback a s1 else s1)"
| "step VideoError s =
     (case onerror (videoElement s) of
        None \<Rightarrow> s
      | Some a \<Rightarrow>
          if p_phase (invocations s ! a) = AwaitLoadedData \<or> p_phase (invocations s ! a) = AwaitPlayback
          then s\<lparr>invocations := update_at a (\<lambda>x. x\<lparr>p_phase := Rejected\<rparr>) (invocations s)\<rparr>
          else s)"
| "step Ended s =
     (let s1 = s\<lparr>videoElement := (videoElement s)\<lparr>ended := True, paused := True\<rparr>\<rparr>
      in case onended (videoElement s1) of
           None \<Rightarrow> s1
         | Some a \<Rightarrow> if p_phase (invocations s1 ! a) = AwaitPlayback then finishProcessing a s1 else s1)"
| "step (Frame t ok) s =
     fold (loop t ok) (frameCallbacks (videoElement s))
       (s\<lparr>videoElement := (videoElement s)\<lparr>frameCallbacks := []\<rparr>\<rparr>)"
| "step Unmount s = unmount s"

definition run_events :: "event list \<Rightarrow> engine \<Rightarrow> engine" where
  "run_events es s = foldl (\<lambda>x e. step e x) s es"

text \<open>The state after the first render and the effect: nothing started.\<close>

definition init :: "bool \<Rightarrow> engine" where
  "init ctx =
     \<lparr>state = \<lparr>isProcessing = False, progress = 0, status = idle, detections = []\<rparr>,
      rawDetectionsRef = [],
      abortControllerRef = None,
      workerRef = None,
      videoElement = \<lparr>src = None, paused = True, ended = False, duration = 0,
                      onloadeddata = None, onerror = None, onended = None, frameCallbacks = []\<rparr>,
      hasContext = ctx,
      runs = [],
      calibrations = [],
      invocations = [],
      reported = []\<rparr>"

subsection \<open>Traces\<close>

text \<open>Whether an event is a call of \<open>processVideo\<close>.\<close>

fun is_start :: "event \<Rightarrow> bool" where
  "is_start (ProcessVideo vUrl rUrl) = True"
| "is_start e = False"

text \<open>A message posted by the worker of a call earlier than call \<open>n\<close>.\<close>

fun stale_message :: "nat \<Rightarrow> event \<Rightarrow> bool" where
  "stale_message n (WorkerMessage r m) = (r < n)"
| "stale_message n e = False"

text \<open>The timestamps of the positive frame results that the worker of call \<open>n\<close> posts.\<close>

fun own_timestamps :: "nat \<Rightarrow> event list \<Rightarrow> real list" where
  "own_timestamps n [] = []"
| "own_timestamps n (WorkerMessage r (FRAME_RESULT detected t) # es) =
     (if r = n \<and> detected then t # own_timestamps n es else own_timestamps n es)"
| "own_timestamps n (e # es) = own_timestamps n es"

text \<open>The media times of the frames presented in a trace.\<close>

fun frame_times :: "event list \<Rightarrow> real list" where
  "frame_times [] = []"
| "frame_times (Frame t ok # es) = t # frame_times es"
| "frame_times (e # es) = frame_times es"

text \<open>
  What is taken of the media element during one run, for a video of duration \<open>d\<close> whose
  last presented frame had media time \<open>t0\<close>: no new call of \<open>processVideo\<close>, every
  \<open>loadeddata\<close> reports the duration \<open>d\<close>, and media times do not go backwards.
\<close>

fun playback :: "real \<Rightarrow> real \<Rightarrow> event list \<Rightarrow> bool" where
  "playback d t0 [] = True"
| "playback d t0 (ProcessVideo vUrl rUrl # es) = False"
| "playback d t0 (LoadedData d' # es) = (d' = d \<and> playback d t0 es)"
| "playback d t0 (Frame t ok # es) = (t0 \<le> t \<and> playback d t es)"
| "playback d t0 (Ended # es) = playback d t0 es"
| "playback d t0 (WorkerMessage r m # es) = playback d t0 es"
| "playback d t0 (ImageSettled c ok # es) = playback d t0 es"
| "playback d t0 (VideoError # es) = playback d t0 es"
| "playback d t0 (Unmount # es) = playback d t0 es"

text \<open>A run up to the start of playback of a video of duration \<open>d\<close>.\<close>

definition until_playback :: "real \<Rightarrow> event list" where
  "until_playback d =
     [ProcessVideo ''video'' ''reference'', WorkerMessage 0 READY, ImageSettled 0 True,
      WorkerMessage 0 CALIBRATION_COMPLETE, LoadedData d]"

text \<open>
  The progress value the loop computes for media time \<open>t\<close> of a video of duration \<open>d\<close>:
  \<open>Math.min(100, Math.round((t / d) * 100))\<close> in double precision.
\<close>

definition percent :: "real \<Rightarrow> real \<Rightarrow> int" where
  "percent d t = min 100 (round (rnd (rnd (t / d) * 100)))"

text \<open>The values the frame loop has reported, oldest first.\<close>

definition loop_reports :: "engine \<Rightarrow> int list" where
  "loop_reports s = map snd (filter (\<lambda>x. fst x = FromLoop) (reported s))"

text \<open>\<open>n\<close> presented frames that are all read and submitted, the last one at media time \<open>t\<close>.\<close>

definition frames_until :: "nat \<Rightarrow> real \<Rightarrow> event list" where
  "frames_until n t = replicate (n - 1) (Frame (t / 2) True) @ [Frame t True]"

text \<open>
  A first run that has reached playback and recorded a detection, superseded by a second
  call; then, during the second run, a late message of the first worker and the end of the
  first playback, before the second run calibrates (with the fallback), plays and ends.
\<close>

definition first_run :: "event list" where
  "first_run = until_playback 10 @ [Frame 1 True, WorkerMessage 0 (FRAME_RESULT True 1)]"

definition second_run :: "event list" where
  "second_run =
     [WorkerMessage 0 (FRAME_RESULT True 1.2), Ended,
      WorkerMessage 1 READY, ImageSettled 1 True, WorkerMessage 1 CALIBRATION_FAILED,
      LoadedData 20, Frame 7 True, WorkerMessage 1 (FRAME_RESULT True 7), Ended]"

section \<open>Rendering: \<open>useVideoProcessor\<close> (src/unnamed/part_000)\<close>

text \<open>
  The hook's React state. Its fields \<open>isProcessing\<close>, \<open>progress\<close>, \<open>status\<close> and \<open>error\<close>
  carry a prime here, the plain names being taken above.
\<close>

record VideoProcessorState =
  isReady :: bool
  isProcessing' :: bool
  progress' :: int
  status' :: string
  error' :: "string option"

text \<open>
  The hook's state: the React state, whether \<open>ffmpegRef.current\<close> is set, and the names of
  the files in the engine's in-memory file system.
\<close>

record processor =
  pstate :: VideoProcessorState
  ffmpegRef :: bool
  files :: "string set"

text \<open>
  What the engine, the platform and the imported helpers do during one call of
  \<open>processVideo\<close>: whether \<open>fetchFile\<close> and \<open>writeFile\<close> succeed, whether
  \<open>buildEditCommand\<close> (not in the sources at hand) returns, the progress fractions the
  engine reports while \<open>exec\<close> runs, whether \<open>exec\<close> leaves an output file, the exit
  code of \<open>exec\<close> (\<open>None\<close>: it rejects), the URL \<open>createObjectURL\<close> returns, and the
  text a template literal prints for a number (\<open>number_text\<close>).
\<close>

record outcome =
  write_ok :: bool
  build_ok :: bool
  exec_progress :: "real list"
  exec_writes_output :: bool
  exec_result :: "int option"
  object_url :: string
  number_text :: "int \<Rightarrow> string"

definition inputName :: string where
  "inputName = ''input.mp4''"

definition outputName :: string where
  "outputName = ''output.mp4''"

definition setProcessorState ::
  "(VideoProcessorState \<Rightarrow> VideoProcessorState) \<Rightarrow> processor \<Rightarrow> processor" where
  "setProcessorState f s = s\<lparr>pstate := f (pstate s)\<rparr>"

text \<open>
  The handler of the engine's \<open>progress\<close> event: \<open>Math.round(progress * 100)\<close>, the
  product rounded to a double first.
\<close>

definition on_progress :: "outcome \<Rightarrow> real \<Rightarrow> processor \<Rightarrow> processor" where
  "on_progress env p s =
     setProcessorState
       (\<lambda>prev. prev\<lparr>progress' := round (rnd (p * 100)),
                    status' := ''Rendering... '' @ number_text env (round (rnd (p * 100))) @ ''%''\<rparr>) s"

text \<open>
  The effect that loads the engine, in two steps: it sets \<open>ffmpegRef.current\<close> unless that
  is set already, and later \<open>ffmpeg.load\<close> settles (\<open>None\<close>: loaded; \<open>Some m\<close>: it threw an
  error with message \<open>m\<close>).
\<close>

definition effect :: "processor \<Rightarrow> processor" where
  "effect s = (if \<not> ffmpegRef s then s\<lparr>ffmpegRef := True\<rparr> else s)"

definition load_settled :: "string option \<Rightarrow> processor \<Rightarrow> processor" where
  "load_settled r s =
     (case r of
        None \<Rightarrow> setProcessorState (\<lambda>prev. prev\<lparr>isReady := True, status' := ''Engine Ready''\<rparr>) s
      | Some m \<Rightarrow>
          setProcessorState
            (\<lambda>prev. prev\<lparr>isReady := False, status' := ''Failed to load engine'',
                         error' := Some (''Engine Error: '' @
                                         (if m = [] then ''Check console details'' else m))\<rparr>) s)"

text \<open>
  The \<open>try\<close> block of \<open>processVideo\<close>: \<open>Inl ()\<close> when an exception leaves it, \<open>Inr url\<close>
  when it returns. \<open>readFile\<close> throws when the file is not there.
\<close>

definition try_block :: "outcome \<Rightarrow> processor \<Rightarrow> (unit + string) \<times> processor" where
  "try_block env s =
     (if \<not> write_ok env then (Inl (), s)
      else let s1 = s\<lparr>files := insert inputName (files s)\<rparr>
           in if \<not> build_ok env then (Inl (), s1)
              else let s2 = setProcessorState (\<lambda>prev. prev\<lparr>status' := ''Processing video...''\<rparr>) s1;
                       s3 = fold (on_progress env) (exec_progress env) s2;
                       s4 = (if exec_writes_output env
                             then s3\<lparr>files := insert outputName (files s3)\<rparr> else s3)
                   in case exec_result env of
                        None \<Rightarrow> (Inl (), s4)
                      | Some result \<Rightarrow>
                          if result \<noteq> 0 then (Inl (), s4)
                          else let s5 = setProcessorState (\<lambda>prev. prev\<lparr>status' := ''Finalizing...''\<rparr>) s4
                               in if outputName \<notin> files s5 then (Inl (), s5)
                                  else (Inr (object_url env), s5))"

text \<open>
  The \<open>finally\<close> block. \<open>deleteFile\<close> throws when the file is not there, and the inner
  \<open>catch\<close> swallows that; a throw on the input file skips the deletion of the output file.
\<close>

definition finally_block :: "processor \<Rightarrow> processor" where
  "finally_block s =
     (let s1 = (if inputName \<in> files s
                then let s' = s\<lparr>files := files s - {inputName}\<rparr>
                     in if outputName \<in> files s' then s'\<lparr>files := files s' - {outputName}\<rparr> else s'
                else s)
      in setProcessorState
           (\<lambda>prev. prev\<lparr>isProcessing' := False, progress' := 100, status' := ''Completed''\<rparr>) s1)"

text \<open>
  \<open>processVideo\<close> of this hook: the returned URL (\<open>None\<close> for \<open>null\<close>) and the new
  state. The callback is created anew whenever \<open>state.isReady\<close> changes, so the guard reads
  the current value. The name carries the hook's name, \<open>processVideo\<close> being taken above.
\<close>

definition useVideoProcessor_processVideo :: "outcome \<Rightarrow> processor \<Rightarrow> string option \<times> processor" where
  "useVideoProcessor_processVideo env s =
     (if \<not> ffmpegRef s \<or> \<not> isReady (pstate s)
      then (None, setProcessorState (\<lambda>prev. prev\<lparr>error' := Some ''Engine not ready''\<rparr>) s)
      else let s1 = setProcessorState
                      (\<lambda>prev. prev\<lparr>isProcessing' := True, progress' := 0, error' := None,
                                   status' := ''Writing file to memory...''\<rparr>) s
           in case try_block env s1 of
                (Inr url, s2) \<Rightarrow> (Some url, finally_block s2)
              | (Inl u, s2) \<Rightarrow>
                  (None, finally_block
                           (setProcessorState
                              (\<lambda>prev. prev\<lparr>error' := Some ''Video processing failed.'',
                                           status' := ''Error''\<rparr>) s2)))"

datatype processor_event = Effect | LoadSettled "string option" | Call outcome

fun processor_step :: "processor_event \<Rightarrow> processor \<Rightarrow> processor" where
  "processor_step Effect s = effect s"
| "processor_step (LoadSettled r) s = load_settled r s"
| "processor_step (Call env) s = snd (useVideoProcessor_processVideo env s)"

definition processor_run :: "processor_event list \<Rightarrow> processor \<Rightarrow> processor" where
  "processor_run es s = foldl (\<lambda>x e. processor_step e x) s es"

definition processor_init :: processor where
  "processor_init =
     \<lparr>pstate = \<lparr>isReady = False, isProcessing' = False, progress' = 0,
                status' = ''Loading engine...'', error' = None\<rparr>,
      ffmpegRef = False,
      files = {}\<rparr>"

text \<open>
  Three concrete outcomes: a clean render, a failing \<open>exec\<close>, and a failing write. The
  only numbers printed in them are 50 and 100.
\<close>

definition render_succeeds :: outcome where
  "render_succeeds = \<lparr>write_ok = True, build_ok = True, exec_progress = [0.5, 1],
                      exec_writes_output = True, exec_result = Some 0, object_url = ''blob:out'',
                      number_text = (\<lambda>k. if k = 50 then ''50'' else ''100'')\<rparr>"

definition exec_fails :: outcome where
  "exec_fails = \<lparr>write_ok = True, build_ok = True, exec_progress = [0.5],
                 exec_writes_output = True, exec_result = Some 1, object_url = ''blob:out'',
                 number_text = (\<lambda>k. if k = 50 then ''50'' else ''100'')\<rparr>"

definition write_fails :: outcome where
  "write_fails = \<lparr>write_ok = False, build_ok = True, exec_progress = [],
                  exec_writes_output = False, exec_result = Some 0, object_url = ''blob:out'',
                  number_text = (\<lambda>k. if k = 50 then ''50'' else ''100'')\<rparr>"

section \<open>Predicates used in the proofs\<close>

text \<open>
  For the orchestrator: the workers not yet terminated and the calls not yet aborted; the
  invariant \<open>coherent\<close> of every reachable state (a live worker belongs to a call
  that is not aborted, such a call is the one \<open>abortControllerRef\<close> holds,
  \<open>workerRef\<close> holds no other, and every stored index is in range); the state of
  affairs once call \<open>n\<close> has superseded all earlier ones; and the conditions under
  which the reported progress values stay in order. For the rendering hook: neither
  temporary file is in the file system.
\<close>

definition alive :: "run list \<Rightarrow> nat set" where
  "alive rs = {r. r < length rs \<and> \<not> terminated (rs ! r)}"

definition unaborted :: "run list \<Rightarrow> nat set" where
  "unaborted rs = {r. r < length rs \<and> \<not> aborted (rs ! r)}"

definition coherent :: "engine \<Rightarrow> bool" where
  "coherent s = (alive (runs s) \<subseteq> unaborted (runs s) \<and>
           unaborted (runs s) \<subseteq> set_option (abortControllerRef s) \<and>
           alive (runs s) \<subseteq> set_option (workerRef s) \<and>
           set_option (workerRef s) \<subseteq> set_option (abortControllerRef s) \<and>
           set (map p_run (invocations s)) \<subseteq> {..<length (runs s)} \<and>
           set_option (onloadeddata (videoElement s)) \<subseteq> {..<length (invocations s)} \<and>
           set_option (onended (videoElement s)) \<subseteq> {..<length (invocations s)} \<and>
           set (frameCallbacks (videoElement s)) \<subseteq> {..<length (invocations s)})"

definition superseded :: "nat \<Rightarrow> engine \<Rightarrow> bool" where
  "superseded n s = (length (runs s) = Suc n \<and> alive (runs s) \<subseteq> {n} \<and> unaborted (runs s) \<subseteq> {n})"

definition reports_ok :: "real \<Rightarrow> real set \<Rightarrow> engine \<Rightarrow> bool" where
  "reports_ok d T s =
     (sorted (loop_reports s) \<and> (\<forall>p \<in> set (loop_reports s). p \<in> percent d ` T))"

definition in_order :: "real \<Rightarrow> real \<Rightarrow> real set \<Rightarrow> engine \<Rightarrow> bool" where
  "in_order d t T s = (reports_ok d T s \<and> (\<forall>p \<in> set (loop_reports s). p \<le> percent d t))"

definition playing :: "real \<Rightarrow> real \<Rightarrow> real set \<Rightarrow> engine \<Rightarrow> bool" where
  "playing d t T s =
     (in_order d t T s \<and> coherent s \<and>
      (\<forall>a \<in> set (frameCallbacks (videoElement s)).
         \<not> aborted (runs s ! p_run (invocations s ! a)) \<longrightarrow> duration (videoElement s) = d))"

definition tidy :: "processor \<Rightarrow> bool" where
  "tidy s = (inputName \<notin> files s \<and> outputName \<notin> files s)"

section \<open>Proofs: rounding\<close>

lemma round_even_cases: "round_even y = \<lfloor>y\<rfloor> \<or> round_even y = \<lfloor>y\<rfloor> + 1"
  by (simp add: round_even_def)

lemma round_even_ge: "of_int n \<le> y \<Longrightarrow> n \<le> round_even y"
proof -
  assume "of_int n \<le> y"
  then have "n \<le> \<lfloor>y\<rfloor>" by (simp add: le_floor_iff)
  with round_even_cases [of y] show ?thesis by auto
qed

lemma round_even_le: "y \<le> of_int n \<Longrightarrow> round_even y \<le> n"
proof (cases "y = of_int n")
  case True
  then show ?thesis by (simp add: round_even_def)
next
  case False
  assume "y \<le> of_int n"
  with False have "y < of_int n" by simp
  then have "\<lfloor>y\<rfloor> < n" by (simp add: floor_less_iff)
  with round_even_cases [of y] show ?thesis by auto
qed

lemma round_even_mono: "x \<le> y \<Longrightarrow> round_even x \<le> round_even y"
proof (cases "\<lfloor>x\<rfloor> = \<lfloor>y\<rfloor>")
  case True
  assume "x \<le> y"
  then have "x - of_int \<lfloor>x\<rfloor> \<le> y - of_int \<lfloor>y\<rfloor>" using True by simp
  then show ?thesis using True by (auto simp: round_even_def)
next
  case False
  assume "x \<le> y"
  then have "\<lfloor>x\<rfloor> \<le> \<lfloor>y\<rfloor>" by (rule floor_mono)
  with False have "\<lfloor>x\<rfloor> + 1 \<le> \<lfloor>y\<rfloor>" by simp
  with round_even_cases [of x] round_even_cases [of y] show ?thesis by auto
qed

lemma binade_bounds:
  assumes "0 < x"
  shows "2 powi binade x \<le> x" and "x < 2 powi (binade x + 1)"
proof -
  have "2 powi binade x \<le> x \<and> x < 2 powi (binade x + 1)"
  proof (cases "1 \<le> x")
    case True
    let ?n = "\<lfloor>x\<rfloor>"
    from True have n: "0 < ?n" by simp
    from bitlen_bounds [OF n] have lo: "2 ^ nat (bitlen ?n - 1) \<le> ?n" and hi: "?n < 2 ^ nat (bitlen ?n)"
      by simp_all
    from n have b: "1 \<le> bitlen ?n" by (simp add: bitlen_alt_def)
    have e: "binade x = bitlen ?n - 1" using True by (simp add: binade_def)
    have p1: "(2::real) powi (bitlen ?n - 1) = 2 ^ nat (bitlen ?n - 1)"
      using b by (simp add: power_int_def)
    have p2: "(2::real) powi (bitlen ?n - 1 + 1) = 2 ^ nat (bitlen ?n)"
      using b by (simp add: power_int_def)
    have "(2::real) ^ nat (bitlen ?n - 1) \<le> of_int ?n"
      using lo by (metis of_int_le_iff of_int_numeral of_int_power)
    also have "\<dots> \<le> x" by simp
    finally have 1: "2 powi binade x \<le> x" unfolding e p1 .
    from hi have "?n + 1 \<le> 2 ^ nat (bitlen ?n)" by simp
    then have "of_int (?n + 1) \<le> (2::real) ^ nat (bitlen ?n)"
      by (metis of_int_le_iff of_int_numeral of_int_power)
    moreover have "x < of_int (?n + 1)" by linarith
    ultimately have 2: "x < 2 powi (binade x + 1)" unfolding e p2 by linarith
    from 1 2 show ?thesis ..
  next
    case False
    let ?y = "1 / x"
    let ?m = "\<lceil>?y\<rceil> - 1"
    from False assms have y: "1 < ?y" by simp
    then have m: "0 < ?m" by linarith
    have my: "of_int ?m < ?y" by linarith
    have ym: "?y \<le> of_int (?m + 1)" by simp
    from bitlen_bounds [OF m] have lo: "2 ^ nat (bitlen ?m - 1) \<le> ?m" and hi: "?m < 2 ^ nat (bitlen ?m)"
      by simp_all
    from m have b: "1 \<le> bitlen ?m" by (simp add: bitlen_alt_def)
    have e: "binade x = - bitlen ?m" using False by (simp add: binade_def)
    have p1: "(2::real) powi (- bitlen ?m) = 1 / 2 ^ nat (bitlen ?m)"
      using b by (simp add: power_int_def field_simps)
    have p2: "(2::real) powi (- bitlen ?m + 1) = 1 / 2 ^ nat (bitlen ?m - 1)"
      using b by (simp add: power_int_def field_simps nat_diff_distrib)
    from hi have "?m + 1 \<le> 2 ^ nat (bitlen ?m)" by simp
    then have "of_int (?m + 1) \<le> (2::real) ^ nat (bitlen ?m)"
      by (metis of_int_le_iff of_int_numeral of_int_power)
    with ym have "?y \<le> 2 ^ nat (bitlen ?m)" by linarith
    then have "1 / 2 ^ nat (bitlen ?m) \<le> x" using assms by (simp add: field_simps)
    then have 1: "2 powi binade x \<le> x" unfolding e p1 by simp
    have "(2::real) ^ nat (bitlen ?m - 1) \<le> of_int ?m"
      using lo by (metis of_int_le_iff of_int_numeral of_int_power)
    with my have "(2::real) ^ nat (bitlen ?m - 1) < ?y" by linarith
    then have "x < 1 / 2 ^ nat (bitlen ?m - 1)" using assms by (simp add: field_simps)
    then have 2: "x < 2 powi (binade x + 1)" unfolding e p2 by simp
    from 1 2 show ?thesis ..
  qed
  then show "2 powi binade x \<le> x" and "x < 2 powi (binade x + 1)" by simp_all
qed

lemma binade_mono: "0 < x \<Longrightarrow> x \<le> y \<Longrightarrow> binade x \<le> binade y"
proof (rule ccontr)
  assume x: "0 < x" and xy: "x \<le> y" and "\<not> binade x \<le> binade y"
  then have "binade y + 1 \<le> binade x" by simp
  then have "(2::real) powi (binade y + 1) \<le> 2 powi binade x"
    by (intro power_int_increasing) simp_all
  with binade_bounds(1) [OF x] binade_bounds(2) [of y] x xy show False by linarith
qed

lemma quantum_pos: "0 < quantum x"
  by (simp add: quantum_def)

lemma quantum_scale:
  "quantum x * 2 ^ 52 = 2 powi (max (binade \<bar>x\<bar>) (- 1022))"
  "quantum x * 2 ^ 53 = 2 powi (max (binade \<bar>x\<bar>) (- 1022) + 1)"
proof -
  have "(2::real) powi (max (binade \<bar>x\<bar>) (- 1022) - 52 + 52) = quantum x * 2 powi 52"
    unfolding quantum_def by (subst power_int_add) simp_all
  then show "quantum x * 2 ^ 52 = 2 powi (max (binade \<bar>x\<bar>) (- 1022))" by simp
  have "(2::real) powi (max (binade \<bar>x\<bar>) (- 1022) - 52 + 53) = quantum x * 2 powi 53"
    unfolding quantum_def by (subst power_int_add) simp_all
  then show "quantum x * 2 ^ 53 = 2 powi (max (binade \<bar>x\<bar>) (- 1022) + 1)"
    by (simp add: add.commute)
qed

lemma rnd_nonneg: "0 \<le> x \<Longrightarrow> 0 \<le> rnd x"
proof -
  assume x: "0 \<le> x"
  then have "of_int 0 \<le> x / quantum x" using quantum_pos [of x] by simp
  then have "0 \<le> round_even (x / quantum x)" by (rule round_even_ge)
  then show ?thesis using quantum_pos [of x] by (simp add: rnd_def)
qed

lemma rnd_nonpos: "x \<le> 0 \<Longrightarrow> rnd x \<le> 0"
proof -
  assume x: "x \<le> 0"
  then have "x / quantum x \<le> of_int 0" using quantum_pos [of x] by (simp add: divide_le_0_iff)
  then have "round_even (x / quantum x) \<le> 0" by (rule round_even_le)
  then show ?thesis using quantum_pos [of x] by (simp add: rnd_def mult_le_0_iff)
qed

lemma rnd_upper:
  assumes "0 < x"
  shows "rnd x \<le> 2 powi (max (binade x) (- 1022) + 1)"
proof -
  let ?q = "quantum x"
  have "x < 2 powi (binade x + 1)" by (rule binade_bounds [OF assms])
  also have "\<dots> \<le> 2 powi (max (binade x) (- 1022) + 1)" by (intro power_int_increasing) simp_all
  also have "\<dots> = ?q * 2 ^ 53" using quantum_scale(2) [of x] assms by simp
  finally have "x / ?q \<le> of_int (2 ^ 53)" using quantum_pos [of x] by (simp add: field_simps)
  then have "round_even (x / ?q) \<le> 2 ^ 53" by (rule round_even_le)
  then have "of_int (round_even (x / ?q)) * ?q \<le> of_int (2 ^ 53) * ?q"
    using quantum_pos [of x] by (intro mult_right_mono) simp_all
  then show ?thesis using quantum_scale(2) [of x] assms by (simp add: rnd_def mult.commute)
qed

lemma rnd_lower:
  assumes "0 < x" and "- 1022 \<le> binade x"
  shows "2 powi binade x \<le> rnd x"
proof -
  let ?q = "quantum x"
  have m: "max (binade x) (- 1022) = binade x" using assms(2) by simp
  have "?q * 2 ^ 52 = 2 powi binade x" using quantum_scale(1) [of x] assms(1) m by simp
  also have "\<dots> \<le> x" by (rule binade_bounds [OF assms(1)])
  finally have "of_int (2 ^ 52) \<le> x / ?q" using quantum_pos [of x] by (simp add: field_simps)
  then have "2 ^ 52 \<le> round_even (x / ?q)" by (rule round_even_ge)
  then have "of_int (2 ^ 52) * ?q \<le> of_int (round_even (x / ?q)) * ?q"
    using quantum_pos [of x] by (intro mult_right_mono) simp_all
  then show ?thesis using quantum_scale(1) [of x] assms(1) m by (simp add: rnd_def mult.commute)
qed

lemma rnd_mono_pos:
  assumes "0 < x" and "x \<le> y"
  shows "rnd x \<le> rnd y"
proof -
  from assms have y: "0 < y" by simp
  let ?ex = "max (binade x) (- 1022)" and ?ey = "max (binade y) (- 1022)"
  have le: "?ex \<le> ?ey" using binade_mono [OF assms] by simp
  show ?thesis
  proof (cases "?ex = ?ey")
    case True
    then have q: "quantum x = quantum y" using assms(1) y by (simp add: quantum_def)
    have "x / quantum y \<le> y / quantum y" using assms(2) quantum_pos [of y] by (simp add: divide_right_mono)
    then have "round_even (x / quantum y) \<le> round_even (y / quantum y)" by (rule round_even_mono)
    then have "of_int (round_even (x / quantum y)) * quantum y \<le> of_int (round_even (y / quantum y)) * quantum y"
      using quantum_pos [of y] by (intro mult_right_mono) simp_all
    then show ?thesis using assms(1) y q by (simp add: rnd_def)
  next
    case False
    with le have lt: "?ex + 1 \<le> ?ey" by simp
    then have by': "- 1022 \<le> binade y" and ey: "?ey = binade y" by auto
    have "rnd x \<le> 2 powi (?ex + 1)" by (rule rnd_upper [OF assms(1)])
    also have "\<dots> \<le> 2 powi binade y" using lt ey by (intro power_int_increasing) simp_all
    also have "\<dots> \<le> rnd y" by (rule rnd_lower [OF y by'])
    finally show ?thesis .
  qed
qed

lemma rnd_zero: "rnd 0 = 0"
  by (simp add: rnd_def)

lemma rnd_mono_nonneg: "0 \<le> x \<Longrightarrow> x \<le> y \<Longrightarrow> rnd x \<le> rnd y"
proof (cases "x = 0")
  case True
  assume "0 \<le> x" "x \<le> y"
  with True show ?thesis using rnd_nonneg [of y] by (simp add: rnd_zero)
next
  case False
  assume "0 \<le> x" "x \<le> y"
  with False show ?thesis by (intro rnd_mono_pos) simp_all
qed

lemma rnd_half: "rnd (1 / 2) = 1 / 2"
  by code_simp

lemma rnd_threshold: "rnd x > 1 / 2 \<Longrightarrow> x > 1 / 2"
proof (rule ccontr)
  assume r: "rnd x > 1 / 2" and "\<not> x > 1 / 2"
  then have x: "x \<le> 1 / 2" by simp
  show False
  proof (cases "0 \<le> x")
    case True
    from rnd_mono_nonneg [OF True x] rnd_half r show False by simp
  next
    case False
    then have "rnd x \<le> 0" by (intro rnd_nonpos) simp
    with r show False by simp
  qed
qed

section \<open>Proofs: Range Merger\<close>

subsection \<open>Properties of the scan\<close>

lemma scan_acc: "scan s p xs acc = acc @ scan s p xs []"
proof (induction xs arbitrary: s p acc)
  case Nil
  show ?case by simp
next
  case (Cons c rest)
  show ?case
    using Cons.IH [of c c "acc @ [\<lparr>start = s, end' = p, confidence = 1\<rparr>]"]
          Cons.IH [of c c "[\<lparr>start = s, end' = p, confidence = 1\<rparr>]"]
          Cons.IH [of s c acc]
    by simp
qed

lemma scan_Nil: "scan s p [] [] = [\<lparr>start = s, end' = p, confidence = 1\<rparr>]"
  by simp

lemma scan_Cons:
  "scan s p (c # rest) [] =
     (if rnd (c - p) > TOLERANCE then \<lparr>start = s, end' = p, confidence = 1\<rparr> # scan c c rest []
      else scan s c rest [])"
  using scan_acc [of c c rest "[\<lparr>start = s, end' = p, confidence = 1\<rparr>]"] by simp

lemma scan_hd:
  "sorted (p # xs) \<Longrightarrow>
     scan s p xs [] \<noteq> [] \<and> start (hd (scan s p xs [])) = s \<and> p \<le> end' (hd (scan s p xs []))"
proof (induction xs arbitrary: p)
  case Nil
  show ?case by simp
next
  case (Cons c rest)
  from Cons.prems have pc: "p \<le> c" and sc: "sorted (c # rest)" by auto
  show ?case using Cons.IH [OF sc] pc by (auto simp: scan_Cons simp del: scan.simps)
qed

lemma scan_members:
  "r \<in> set (scan s p xs []) \<Longrightarrow>
     (start r = s \<or> start r \<in> set xs) \<and> (end' r = p \<or> end' r \<in> set xs) \<and> confidence r = 1"
proof (induction xs arbitrary: s p)
  case Nil
  then show ?case by auto
next
  case (Cons c rest)
  show ?case
  proof (cases "rnd (c - p) > TOLERANCE")
    case True
    with Cons.prems have "r = \<lparr>start = s, end' = p, confidence = 1\<rparr> \<or> r \<in> set (scan c c rest [])"
      by (simp add: scan_Cons del: scan.simps)
    then show ?thesis using Cons.IH [of c c] by auto
  next
    case False
    with Cons.prems have "r \<in> set (scan s c rest [])"
      by (simp add: scan_Cons del: scan.simps)
    then show ?thesis using Cons.IH [of s c] by auto
  qed
qed

lemma scan_ordered:
  "s \<le> p \<Longrightarrow> sorted (p # xs) \<Longrightarrow> r \<in> set (scan s p xs []) \<Longrightarrow> start r \<le> end' r \<and> s \<le> start r"
proof (induction xs arbitrary: s p)
  case Nil
  then show ?case by auto
next
  case (Cons c rest)
  from Cons.prems have pc: "p \<le> c" and sc: "sorted (c # rest)" by auto
  show ?case
  proof (cases "rnd (c - p) > TOLERANCE")
    case True
    with Cons.prems have "r = \<lparr>start = s, end' = p, confidence = 1\<rparr> \<or> r \<in> set (scan c c rest [])"
      by (simp add: scan_Cons del: scan.simps)
    then show ?thesis using Cons.IH [of c c, OF _ sc] Cons.prems(1) pc by auto
  next
    case False
    with Cons.prems have "r \<in> set (scan s c rest [])"
      by (simp add: scan_Cons del: scan.simps)
    then show ?thesis using Cons.IH [of s c, OF _ sc] Cons.prems(1) pc by auto
  qed
qed

lemma gap_exact: "rnd (c - p) > TOLERANCE \<Longrightarrow> c - p > TOLERANCE"
  using rnd_threshold [of "c - p"] by (simp add: TOLERANCE_def)

lemma scan_separated:
  "s \<le> p \<Longrightarrow> sorted (p # xs) \<Longrightarrow>
     sorted_wrt (\<lambda>r r'. start r' - end' r > TOLERANCE) (scan s p xs [])"
proof (induction xs arbitrary: s p)
  case Nil
  show ?case by simp
next
  case (Cons c rest)
  from Cons.prems have pc: "p \<le> c" and sc: "sorted (c # rest)" by auto
  show ?case
  proof (cases "rnd (c - p) > TOLERANCE")
    case True
    have "\<forall>r \<in> set (scan c c rest []). c \<le> start r"
      using scan_ordered [of c c rest, OF _ sc] by simp
    with gap_exact [OF True] have "\<forall>r \<in> set (scan c c rest []). start r - p > TOLERANCE"
      by fastforce
    then show ?thesis using True Cons.IH [of c c, OF _ sc]
      by (simp add: scan_Cons del: scan.simps)
  next
    case False
    then show ?thesis using Cons.IH [of s c, OF _ sc] Cons.prems(1) pc
      by (simp add: scan_Cons del: scan.simps)
  qed
qed

lemma scan_successive:
  "sorted (p # xs) \<Longrightarrow>
     successively (\<lambda>r r'. rnd (start r' - end' r) > TOLERANCE) (scan s p xs [])"
proof (induction xs arbitrary: s p)
  case Nil
  show ?case by simp
next
  case (Cons c rest)
  from Cons.prems have sc: "sorted (c # rest)" by auto
  show ?case
  proof (cases "rnd (c - p) > TOLERANCE")
    case True
    then show ?thesis using Cons.IH [of c c, OF sc] scan_hd [OF sc, of c]
      by (simp add: scan_Cons successively_Cons del: scan.simps)
  next
    case False
    then show ?thesis using Cons.IH [of c s, OF sc]
      by (simp add: scan_Cons del: scan.simps)
  qed
qed

lemma scan_covers:
  "s \<le> p \<Longrightarrow> sorted (p # xs) \<Longrightarrow> (s \<le> t \<and> t \<le> p) \<or> t \<in> set xs \<Longrightarrow>
     \<exists>r \<in> set (scan s p xs []). covers r t"
proof (induction xs arbitrary: s p)
  case Nil
  then show ?case by (simp add: covers_def)
next
  case (Cons c rest)
  from Cons.prems have pc: "p \<le> c" and sc: "sorted (c # rest)" by auto
  show ?case
  proof (cases "rnd (c - p) > TOLERANCE")
    case True
    show ?thesis
    proof (cases "s \<le> t \<and> t \<le> p")
      case True
      then have "covers \<lparr>start = s, end' = p, confidence = 1\<rparr> t" by (simp add: covers_def)
      then show ?thesis using \<open>rnd (c - p) > TOLERANCE\<close> by (auto simp: scan_Cons simp del: scan.simps)
    next
      case False
      with Cons.prems(3) have "(c \<le> t \<and> t \<le> c) \<or> t \<in> set rest" by auto
      from Cons.IH [of c c, OF _ sc this] show ?thesis using \<open>rnd (c - p) > TOLERANCE\<close>
        by (auto simp: scan_Cons simp del: scan.simps)
    qed
  next
    case False
    from Cons.prems(1,3) pc have "(s \<le> t \<and> t \<le> c) \<or> t \<in> set rest" by auto
    from Cons.IH [of s c, OF _ sc this] Cons.prems(1) pc show ?thesis using False
      by (auto simp: scan_Cons simp del: scan.simps)
  qed
qed

lemma TOLERANCE_pos: "0 < TOLERANCE"
  by (simp add: TOLERANCE_def)

lemma separated_at_most_one:
  "sorted_wrt (\<lambda>r r'. start r' - end' r > TOLERANCE) rs \<Longrightarrow>
     length (filter (\<lambda>r. covers r t) rs) \<le> 1"
proof (induction rs)
  case Nil
  show ?case by simp
next
  case (Cons r rs)
  show ?case
  proof (cases "covers r t")
    case True
    have "\<forall>r' \<in> set rs. \<not> covers r' t"
      using Cons.prems True TOLERANCE_pos by (fastforce simp: covers_def)
    then have "filter (\<lambda>r. covers r t) rs = []" by (simp add: filter_empty_conv)
    with True show ?thesis by simp
  next
    case False
    with Cons show ?thesis by simp
  qed
qed

lemma covered_exactly_once:
  assumes "sorted_wrt (\<lambda>r r'. start r' - end' r > TOLERANCE) rs"
      and "\<exists>r \<in> set rs. covers r t"
  shows "length (filter (\<lambda>r. covers r t) rs) = 1"
proof -
  from assms(2) have "filter (\<lambda>r. covers r t) rs \<noteq> []" by (simp add: filter_empty_conv)
  then have "0 < length (filter (\<lambda>r. covers r t) rs)" by simp
  with separated_at_most_one [OF assms(1), of t] show ?thesis by linarith
qed

lemma processDetections_scan:
  "ts \<noteq> [] \<Longrightarrow> \<exists>p xs. sort ts = p # xs \<and> processDetections ts = scan p p xs []"
proof -
  assume ne: "ts \<noteq> []"
  then have "sort ts \<noteq> []" by (metis length_0_conv length_sort)
  then obtain p xs where px: "sort ts = p # xs" by (cases "sort ts") auto
  with ne show ?thesis by (auto simp: processDetections_def Let_def)
qed

lemma processDetections_merged: "merged (processDetections ts)"
proof (cases "ts = []")
  case True
  then show ?thesis by (simp add: processDetections_def merged_def)
next
  case False
  from processDetections_scan [OF False] obtain p xs
    where px: "sort ts = p # xs" and pd: "processDetections ts = scan p p xs []" by blast
  have sp: "sorted (p # xs)" using sorted_sort [of ts] px by simp
  show ?thesis unfolding merged_def pd
    using scan_separated [of p p xs, OF _ sp] scan_ordered [of p p xs, OF _ sp]
          scan_members [of _ p p xs] scan_successive [OF sp, of p] by auto
qed

lemma processDetections_covers:
  assumes "t \<in> set ts"
  shows "\<exists>r \<in> set (processDetections ts). covers r t"
proof -
  from assms have ne: "ts \<noteq> []" by auto
  from processDetections_scan [OF ne] obtain p xs
    where px: "sort ts = p # xs" and pd: "processDetections ts = scan p p xs []" by blast
  have sp: "sorted (p # xs)" using sorted_sort [of ts] px by simp
  have "t \<in> set (p # xs)" using assms px by (metis set_sort)
  then have "(p \<le> t \<and> t \<le> p) \<or> t \<in> set xs" by auto
  from scan_covers [of p p xs t, OF _ sp this] show ?thesis by (simp add: pd)
qed

lemma processDetections_endpoints:
  assumes "r \<in> set (processDetections ts)"
  shows "start r \<in> set ts \<and> end' r \<in> set ts"
proof -
  from assms have ne: "ts \<noteq> []" by (auto simp: processDetections_def)
  from processDetections_scan [OF ne] obtain p xs
    where px: "sort ts = p # xs" and pd: "processDetections ts = scan p p xs []" by blast
  have "set ts = set (p # xs)" using px by (metis set_sort)
  then show ?thesis using scan_members [of r p p xs] assms pd by auto
qed

lemma scan_adjacent:
  assumes "s \<le> p" and "sorted (p # xs)" and "Suc i < length (p # xs)"
  shows "(rnd ((p # xs) ! Suc i - (p # xs) ! i) \<le> TOLERANCE \<longrightarrow>
            (\<exists>r \<in> set (scan s p xs []). covers r ((p # xs) ! i) \<and> covers r ((p # xs) ! Suc i))) \<and>
         (rnd ((p # xs) ! Suc i - (p # xs) ! i) > TOLERANCE \<longrightarrow>
            (\<exists>j. Suc j < length (scan s p xs []) \<and>
                 end' (scan s p xs [] ! j) = (p # xs) ! i \<and>
                 start (scan s p xs [] ! Suc j) = (p # xs) ! Suc i))"
  using assms
proof (induction xs arbitrary: s p i)
  case Nil
  then show ?case by simp
next
  case (Cons c rest)
  from Cons.prems have sp: "s \<le> p" and pc: "p \<le> c" and sc: "sorted (c # rest)" by auto
  note hd = scan_hd [OF sc]
  show ?case
  proof (cases i)
    case 0
    show ?thesis
    proof (cases "rnd (c - p) > TOLERANCE")
      case True
      have "scan c c rest [] ! 0 = hd (scan c c rest [])"
        using hd [of c] by (simp add: hd_conv_nth)
      then have "Suc 0 < length (scan s p (c # rest) []) \<and>
                 end' (scan s p (c # rest) [] ! 0) = p \<and>
                 start (scan s p (c # rest) [] ! Suc 0) = c"
        using True hd [of c] by (simp add: scan_Cons del: scan.simps)
      then show ?thesis using True 0 by auto
    next
      case False
      have "hd (scan s c rest []) \<in> set (scan s c rest [])" using hd [of s] by simp
      moreover have "covers (hd (scan s c rest [])) p \<and> covers (hd (scan s c rest [])) c"
        using hd [of s] sp pc by (simp add: covers_def)
      ultimately show ?thesis using False 0 by (auto simp: scan_Cons simp del: scan.simps)
    qed
  next
    case (Suc k)
    with Cons.prems have k: "Suc k < length (c # rest)" by simp
    show ?thesis
    proof (cases "rnd (c - p) > TOLERANCE")
      case True
      from Cons.IH [of c c k, OF _ sc k]
      have ih: "(rnd ((c # rest) ! Suc k - (c # rest) ! k) \<le> TOLERANCE \<longrightarrow>
            (\<exists>r \<in> set (scan c c rest []). covers r ((c # rest) ! k) \<and> covers r ((c # rest) ! Suc k))) \<and>
         (rnd ((c # rest) ! Suc k - (c # rest) ! k) > TOLERANCE \<longrightarrow>
            (\<exists>j. Suc j < length (scan c c rest []) \<and>
                 end' (scan c c rest [] ! j) = (c # rest) ! k \<and>
                 start (scan c c rest [] ! Suc j) = (c # rest) ! Suc k))" by simp
      have eq: "scan s p (c # rest) [] = \<lparr>start = s, end' = p, confidence = 1\<rparr> # scan c c rest []"
        using True by (simp add: scan_Cons del: scan.simps)
      show ?thesis
      proof (intro conjI impI)
        assume "rnd ((p # c # rest) ! Suc i - (p # c # rest) ! i) \<le> TOLERANCE"
        with Suc ih show "\<exists>r \<in> set (scan s p (c # rest) []).
            covers r ((p # c # rest) ! i) \<and> covers r ((p # c # rest) ! Suc i)"
          unfolding eq by auto
      next
        assume "rnd ((p # c # rest) ! Suc i - (p # c # rest) ! i) > TOLERANCE"
        with Suc ih obtain j where j: "Suc j < length (scan c c rest [])"
            "end' (scan c c rest [] ! j) = (c # rest) ! k"
            "start (scan c c rest [] ! Suc j) = (c # rest) ! Suc k" by auto
        then have "Suc (Suc j) < length (scan s p (c # rest) []) \<and>
                 end' (scan s p (c # rest) [] ! Suc j) = (p # c # rest) ! i \<and>
                 start (scan s p (c # rest) [] ! Suc (Suc j)) = (p # c # rest) ! Suc i"
          unfolding eq using Suc by simp
        then show "\<exists>j. Suc j < length (scan s p (c # rest) []) \<and>
                 end' (scan s p (c # rest) [] ! j) = (p # c # rest) ! i \<and>
                 start (scan s p (c # rest) [] ! Suc j) = (p # c # rest) ! Suc i" by blast
      qed
    next
      case False
      have eq: "scan s p (c # rest) [] = scan s c rest []"
        using False by (simp add: scan_Cons del: scan.simps)
      from sp pc have "s \<le> c" by simp
      from Cons.IH [of s c k, OF this sc k] show ?thesis unfolding eq using Suc by simp
    qed
  qed
qed

lemma processDetections_Nil: "processDetections [] = []"
  by (simp add: processDetections_def)

lemma processDetections_single:
  "processDetections [t] = [\<lparr>start = t, end' = t, confidence = 1\<rparr>]"
  by (simp add: processDetections_def)

lemma merged_Cons:
  "merged (r # rs) \<longleftrightarrow>
     start r \<le> end' r \<and> confidence r = 1 \<and> (\<forall>r' \<in> set rs. start r' - end' r > TOLERANCE) \<and>
     (rs = [] \<or> rnd (start (hd rs) - end' r) > TOLERANCE) \<and> merged rs"
  by (auto simp: merged_def successively_Cons)

lemma endpoints_Cons: "endpoints (r # rs) = start r # end' r # endpoints rs"
  by (simp add: endpoints_def)

lemma endpoints_Nil: "endpoints [] = []"
  by (simp add: endpoints_def)

lemma set_endpoints: "set (endpoints rs) = start ` set rs \<union> end' ` set rs"
  by (induction rs) (auto simp: endpoints_Cons endpoints_Nil)

lemma merged_lower:
  "merged rs \<Longrightarrow> \<forall>r \<in> set rs. b \<le> start r \<Longrightarrow> \<forall>t \<in> set (endpoints rs). b \<le> t"
  by (fastforce simp: set_endpoints merged_def)

lemma sorted_endpoints: "merged rs \<Longrightarrow> sorted (endpoints rs)"
proof (induction rs)
  case Nil
  show ?case by (simp add: endpoints_Nil)
next
  case (Cons r rs)
  from Cons.prems have r: "start r \<le> end' r" and m: "merged rs"
    and gap: "\<forall>r' \<in> set rs. start r' - end' r > TOLERANCE" by (simp_all add: merged_Cons)
  from gap TOLERANCE_pos have "\<forall>r' \<in> set rs. end' r \<le> start r'" by fastforce
  from merged_lower [OF m this] have "\<forall>t \<in> set (endpoints rs). end' r \<le> t" .
  with r Cons.IH [OF m] show ?case by (fastforce simp: endpoints_Cons)
qed

lemma scan_endpoints_narrow:
  "merged (r # rs) \<Longrightarrow> \<forall>q \<in> set (r # rs). rnd (end' q - start q) \<le> TOLERANCE \<Longrightarrow>
     scan (start r) (start r) (end' r # endpoints rs) [] = r # rs"
proof (induction rs arbitrary: r)
  case Nil
  then show ?case by (simp add: endpoints_Nil merged_Cons)
next
  case (Cons r' rs)
  from Cons.prems(1) have m: "merged (r' # rs)" and gap: "rnd (start r' - end' r) > TOLERANCE"
    and c: "confidence r = 1" by (simp_all add: merged_Cons [of r])
  from Cons.prems(2) have n: "\<forall>q \<in> set (r' # rs). rnd (end' q - start q) \<le> TOLERANCE"
    and nr: "rnd (end' r - start r) \<le> TOLERANCE" by simp_all
  have "scan (start r) (start r) (end' r # endpoints (r' # rs)) [] =
        scan (start r) (end' r) (start r' # end' r' # endpoints rs) []"
    using nr by (simp add: scan_Cons endpoints_Cons del: scan.simps)
  also have "\<dots> = \<lparr>start = start r, end' = end' r, confidence = 1\<rparr> #
                   scan (start r') (start r') (end' r' # endpoints rs) []"
    using gap by (simp add: scan_Cons del: scan.simps)
  also have "\<dots> = r # r' # rs" using Cons.IH [OF m n] c by simp
  finally show ?case .
qed

lemma scan_endpoints_wide:
  "merged (r # rs) \<Longrightarrow> \<exists>q \<in> set (r # rs). rnd (end' q - start q) > TOLERANCE \<Longrightarrow>
     scan (start r) (start r) (end' r # endpoints rs) [] \<noteq> r # rs"
proof (induction rs arbitrary: r)
  case Nil
  then have "rnd (end' r - start r) > TOLERANCE" by simp
  then have "scan (start r) (start r) (end' r # endpoints []) [] =
     [\<lparr>start = start r, end' = start r, confidence = 1\<rparr>, \<lparr>start = end' r, end' = end' r, confidence = 1\<rparr>]"
    by (simp add: scan_Cons scan_Nil endpoints_Nil del: scan.simps)
  then show ?case by simp
next
  case (Cons r' rs)
  from Cons.prems(1) have m: "merged (r' # rs)" and gap: "rnd (start r' - end' r) > TOLERANCE"
    by (simp_all add: merged_Cons [of r])
  show ?case
  proof (cases "rnd (end' r - start r) > TOLERANCE")
    case True
    then have step: "scan (start r) (start r) (end' r # endpoints (r' # rs)) [] =
        \<lparr>start = start r, end' = start r, confidence = 1\<rparr> # scan (end' r) (end' r) (endpoints (r' # rs)) []"
      by (simp add: scan_Cons del: scan.simps)
    show ?thesis
    proof
      assume "scan (start r) (start r) (end' r # endpoints (r' # rs)) [] = r # r' # rs"
      with step have "\<lparr>start = start r, end' = start r, confidence = 1\<rparr> = r" by simp
      then have "end' \<lparr>start = start r, end' = start r, confidence = 1\<rparr> = end' r" by simp
      with gap_exact [OF True] TOLERANCE_pos show False by simp
    qed
  next
    case False
    with Cons.prems(2) have w: "\<exists>q \<in> set (r' # rs). rnd (end' q - start q) > TOLERANCE" by auto
    have "scan (start r) (start r) (end' r # endpoints (r' # rs)) [] =
        scan (start r) (end' r) (start r' # end' r' # endpoints rs) []"
      using False by (simp add: scan_Cons endpoints_Cons del: scan.simps)
    also have "\<dots> = \<lparr>start = start r, end' = end' r, confidence = 1\<rparr> #
                   scan (start r') (start r') (end' r' # endpoints rs) []"
      using gap by (simp add: scan_Cons del: scan.simps)
    finally show ?thesis using Cons.IH [OF m w] by simp
  qed
qed

lemma remerge_endpoints:
  assumes "merged rs"
  shows "processDetections (endpoints rs) = rs \<longleftrightarrow>
           (\<forall>q \<in> set rs. rnd (end' q - start q) \<le> TOLERANCE)"
proof (cases rs)
  case Nil
  then show ?thesis by (simp add: endpoints_Nil processDetections_def)
next
  case (Cons r rs')
  have "sort (endpoints rs) = endpoints rs"
    using sorted_endpoints [OF assms] by (simp add: sort_key_id_if_sorted)
  then have pd: "processDetections (endpoints rs) = scan (start r) (start r) (end' r # endpoints rs') []"
    using Cons by (simp add: processDetections_def endpoints_Cons)
  show ?thesis
  proof (cases "\<forall>q \<in> set rs. rnd (end' q - start q) \<le> TOLERANCE")
    case True
    then show ?thesis using scan_endpoints_narrow [of r rs'] assms Cons pd by simp
  next
    case False
    then have "\<exists>q \<in> set (r # rs'). rnd (end' q - start q) > TOLERANCE"
      using Cons by (simp add: not_le)
    from scan_endpoints_wide [OF _ this] assms Cons pd False show ?thesis by simp
  qed
qed

lemma merged_distinct_starts: "merged rs \<Longrightarrow> distinct (map start rs)"
proof (induction rs)
  case Nil
  show ?case by simp
next
  case (Cons r rs)
  from Cons.prems have r: "start r \<le> end' r" and m: "merged rs"
    and gap: "\<forall>r' \<in> set rs. start r' - end' r > TOLERANCE" by (simp_all add: merged_Cons)
  from gap r TOLERANCE_pos have "\<forall>r' \<in> set rs. start r' \<noteq> start r" by fastforce
  with Cons.IH [OF m] show ?case by auto
qed

lemma processDetections_count: "length (processDetections ts) \<le> card (set ts)"
proof -
  let ?out = "processDetections ts"
  have "distinct (map start ?out)"
    using merged_distinct_starts [OF processDetections_merged] .
  then have "length ?out = card (set (map start ?out))"
    by (metis distinct_card length_map)
  moreover have "set (map start ?out) \<subseteq> set ts"
    using processDetections_endpoints [of _ ts] by auto
  ultimately show ?thesis by (simp add: card_mono)
qed

lemma processDetections_heap_result:
  assumes "timestamps < length h"
  shows "fst (processDetections_heap timestamps h) = processDetections (h ! timestamps)"
    and "\<forall>a < length h. snd (processDetections_heap timestamps h) ! a = h ! a"
  using assms
  by (auto simp: processDetections_heap_def processDetections_def spread_def sort_in_place_def
                 Let_def nth_append)

subsection \<open>Claims about the Range Merger\<close>

text \<open>
  Claim C3. For the empty input the output is empty, for a single timestamp \<open>t\<close> the output
  is the single zero-width range from \<open>t\<close> to \<open>t\<close>, and for every non-empty input the
  output ranges are sorted ascending, pairwise non-overlapping (an earlier range ends strictly
  before a later one starts), each has start at most end, and every input timestamp lies
  within exactly one output range.
\<close>

theorem processDetections_partition:
  "processDetections [] = [] \<and>
   processDetections [t] = [\<lparr>start = t, end' = t, confidence = 1\<rparr>] \<and>
   (timestamps \<noteq> [] \<longrightarrow>
      sorted (map start (processDetections timestamps)) \<and>
      sorted_wrt (\<lambda>r r'. end' r < start r') (processDetections timestamps) \<and>
      (\<forall>r \<in> set (processDetections timestamps). start r \<le> end' r) \<and>
      (\<forall>x \<in> set timestamps.
         length (filter (\<lambda>r. covers r x) (processDetections timestamps)) = 1))"
proof -
  let ?out = "processDetections timestamps"
  have m: "merged ?out" by (rule processDetections_merged)
  then have sep: "sorted_wrt (\<lambda>r r'. start r' - end' r > TOLERANCE) ?out"
    and ord: "\<forall>r \<in> set ?out. start r \<le> end' r" by (simp_all add: merged_def)
  have strict: "sorted_wrt (\<lambda>r r'. end' r < start r') ?out"
    by (rule sorted_wrt_mono_rel [OF _ sep]) (use TOLERANCE_pos in auto)
  have "sorted_wrt (\<lambda>r r'. start r \<le> start r') ?out"
    by (rule sorted_wrt_mono_rel [OF _ strict]) (use ord in fastforce)
  then have asc: "sorted (map start ?out)" by (simp add: sorted_map)
  have once: "\<forall>x \<in> set timestamps. length (filter (\<lambda>r. covers r x) ?out) = 1"
    using covered_exactly_once [OF sep] processDetections_covers by blast
  show ?thesis
    using asc strict ord once processDetections_Nil processDetections_single by simp
qed

theorem processDetections_partition_witness:
  "map rnd [5.3, 1.2, 1.0, 5.0, 1.6] \<noteq> [] \<and>
   rnd 1.2 \<in> set (map rnd [5.3, 1.2, 1.0, 5.0, 1.6]) \<and>
   processDetections (map rnd [5.3, 1.2, 1.0, 5.0, 1.6]) =
     [\<lparr>start = rnd 1.0, end' = rnd 1.6, confidence = 1\<rparr>,
      \<lparr>start = rnd 5.0, end' = rnd 5.3, confidence = 1\<rparr>] \<and>
   sorted (map start (processDetections (map rnd [5.3, 1.2, 1.0, 5.0, 1.6]))) \<and>
   length (filter (\<lambda>r. covers r (rnd 1.2)) (processDetections (map rnd [5.3, 1.2, 1.0, 5.0, 1.6]))) = 1"
proof -
  have ne: "map rnd [5.3, 1.2, 1.0, 5.0, 1.6] \<noteq> []" by simp
  have el: "rnd 1.2 \<in> set (map rnd [5.3, 1.2, 1.0, 5.0, 1.6])" by simp
  have out: "processDetections (map rnd [5.3, 1.2, 1.0, 5.0, 1.6]) =
     [\<lparr>start = rnd 1.0, end' = rnd 1.6, confidence = 1\<rparr>,
      \<lparr>start = rnd 5.0, end' = rnd 5.3, confidence = 1\<rparr>]" by code_simp
  from processDetections_partition [of 0 "map rnd [5.3, 1.2, 1.0, 5.0, 1.6]"] ne el
  have "sorted (map start (processDetections (map rnd [5.3, 1.2, 1.0, 5.0, 1.6]))) \<and>
        length (filter (\<lambda>r. covers r (rnd 1.2))
                  (processDetections (map rnd [5.3, 1.2, 1.0, 5.0, 1.6]))) = 1" by blast
  with ne el out show ?thesis by blast
qed

text \<open>
  Claim C4, as amended. For every adjacent pair \<open>a\<close>, \<open>b\<close> of the sorted input, with the
  difference \<open>b - a\<close> taken as the code computes it, rounded to double precision: if it is at
  most 0.5 then one output range contains both, and if it exceeds 0.5 then \<open>a\<close> is the end of
  one output range and \<open>b\<close> is the start of the next one. The input
  \<open>[1.0, 1.2, 1.6, 5.0, 5.3]\<close> yields exactly the ranges from 1.0 to 1.6 and from 5.0 to 5.3.
\<close>

theorem processDetections_adjacent:
  "(Suc i < length timestamps \<longrightarrow>
      (rnd (sort timestamps ! Suc i - sort timestamps ! i) \<le> 0.5 \<longrightarrow>
         (\<exists>r \<in> set (processDetections timestamps).
            covers r (sort timestamps ! i) \<and> covers r (sort timestamps ! Suc i))) \<and>
      (rnd (sort timestamps ! Suc i - sort timestamps ! i) > 0.5 \<longrightarrow>
         (\<exists>j. Suc j < length (processDetections timestamps) \<and>
              end' (processDetections timestamps ! j) = sort timestamps ! i \<and>
              start (processDetections timestamps ! Suc j) = sort timestamps ! Suc i))) \<and>
   processDetections (map rnd [1.0, 1.2, 1.6, 5.0, 5.3]) =
     [\<lparr>start = rnd 1.0, end' = rnd 1.6, confidence = 1\<rparr>,
      \<lparr>start = rnd 5.0, end' = rnd 5.3, confidence = 1\<rparr>]"
proof -
  have ex: "processDetections (map rnd [1.0, 1.2, 1.6, 5.0, 5.3]) =
     [\<lparr>start = rnd 1.0, end' = rnd 1.6, confidence = 1\<rparr>,
      \<lparr>start = rnd 5.0, end' = rnd 5.3, confidence = 1\<rparr>]"
    by code_simp
  have adj: "(rnd (sort timestamps ! Suc i - sort timestamps ! i) \<le> 0.5 \<longrightarrow>
         (\<exists>r \<in> set (processDetections timestamps).
            covers r (sort timestamps ! i) \<and> covers r (sort timestamps ! Suc i))) \<and>
      (rnd (sort timestamps ! Suc i - sort timestamps ! i) > 0.5 \<longrightarrow>
         (\<exists>j. Suc j < length (processDetections timestamps) \<and>
              end' (processDetections timestamps ! j) = sort timestamps ! i \<and>
              start (processDetections timestamps ! Suc j) = sort timestamps ! Suc i))"
    if len: "Suc i < length timestamps"
  proof -
    from len have ne: "timestamps \<noteq> []" by auto
    from processDetections_scan [OF ne] obtain p xs
      where px: "sort timestamps = p # xs"
        and pd: "processDetections timestamps = scan p p xs []" by blast
    have sp: "sorted (p # xs)" using sorted_sort [of timestamps] px by simp
    have "length (p # xs) = length timestamps" using px by (metis length_sort)
    with len have i: "Suc i < length (p # xs)" by simp
    from scan_adjacent [of p p xs i, OF _ sp i] show ?thesis
      unfolding px pd TOLERANCE_def by simp
  qed
  from ex adj show ?thesis by blast
qed

theorem processDetections_adjacent_witness:
  "Suc 2 < length (map rnd [1.0, 1.2, 1.6, 5.0, 5.3]) \<and>
   sort (map rnd [1.0, 1.2, 1.6, 5.0, 5.3]) ! 2 = rnd 1.6 \<and>
   sort (map rnd [1.0, 1.2, 1.6, 5.0, 5.3]) ! Suc 2 = rnd 5.0 \<and>
   rnd (rnd 5.0 - rnd 1.6) > 0.5 \<and>
   (\<exists>j. Suc j < length (processDetections (map rnd [1.0, 1.2, 1.6, 5.0, 5.3])) \<and>
        end' (processDetections (map rnd [1.0, 1.2, 1.6, 5.0, 5.3]) ! j) = rnd 1.6 \<and>
        start (processDetections (map rnd [1.0, 1.2, 1.6, 5.0, 5.3]) ! Suc j) = rnd 5.0) \<and>
   Suc 1 < length (map rnd [1.0, 1.2, 1.6, 5.0, 5.3]) \<and>
   sort (map rnd [1.0, 1.2, 1.6, 5.0, 5.3]) ! 1 = rnd 1.2 \<and>
   sort (map rnd [1.0, 1.2, 1.6, 5.0, 5.3]) ! Suc 1 = rnd 1.6 \<and>
   rnd (rnd 1.6 - rnd 1.2) \<le> 0.5 \<and>
   (\<exists>r \<in> set (processDetections (map rnd [1.0, 1.2, 1.6, 5.0, 5.3])).
      covers r (rnd 1.2) \<and> covers r (rnd 1.6))"
proof -
  have l2: "Suc 2 < length (map rnd [1.0, 1.2, 1.6, 5.0, 5.3])"
    and l1: "Suc 1 < length (map rnd [1.0, 1.2, 1.6, 5.0, 5.3])" by simp_all
  have s2: "sort (map rnd [1.0, 1.2, 1.6, 5.0, 5.3]) ! 2 = rnd 1.6" by code_simp
  have s3: "sort (map rnd [1.0, 1.2, 1.6, 5.0, 5.3]) ! Suc 2 = rnd 5.0" by code_simp
  have s1: "sort (map rnd [1.0, 1.2, 1.6, 5.0, 5.3]) ! 1 = rnd 1.2" by code_simp
  have s2': "sort (map rnd [1.0, 1.2, 1.6, 5.0, 5.3]) ! Suc 1 = rnd 1.6" by code_simp
  have wide: "rnd (rnd 5.0 - rnd 1.6) > 0.5" by code_simp
  have narrow: "rnd (rnd 1.6 - rnd 1.2) \<le> 0.5" by code_simp
  from processDetections_adjacent [of 2 "map rnd [1.0, 1.2, 1.6, 5.0, 5.3]"] l2 wide
  have a: "\<exists>j. Suc j < length (processDetections (map rnd [1.0, 1.2, 1.6, 5.0, 5.3])) \<and>
        end' (processDetections (map rnd [1.0, 1.2, 1.6, 5.0, 5.3]) ! j) = rnd 1.6 \<and>
        start (processDetections (map rnd [1.0, 1.2, 1.6, 5.0, 5.3]) ! Suc j) = rnd 5.0"
    unfolding s2 s3 by blast
  from processDetections_adjacent [of 1 "map rnd [1.0, 1.2, 1.6, 5.0, 5.3]"] l1 narrow
  have b: "\<exists>r \<in> set (processDetections (map rnd [1.0, 1.2, 1.6, 5.0, 5.3])).
      covers r (rnd 1.2) \<and> covers r (rnd 1.6)"
    unfolding s1 s2' by blast
  from l2 l1 s2 s3 s1 s2' wide narrow a b show ?thesis by blast
qed

text \<open>
  Claim C4, as stated with the exact difference, fails: the doubles written \<open>0.3\<close> and \<open>0.8\<close>
  are more than 0.5 apart (by \<open>2^-54\<close>), but their difference as computed is exactly 0.5,
  and the two timestamps land in one range.
\<close>

theorem processDetections_adjacent_counterexample:
  "rnd 0.8 - rnd 0.3 > 0.5 \<and>
   rnd (rnd 0.8 - rnd 0.3) = 0.5 \<and>
   sort [rnd 0.3, rnd 0.8] = [rnd 0.3, rnd 0.8] \<and>
   processDetections [rnd 0.3, rnd 0.8] = [\<lparr>start = rnd 0.3, end' = rnd 0.8, confidence = 1\<rparr>]"
  by code_simp

text \<open>
  Claim C9. Run on the array stored at an address of the store: the start and the end of
  every returned range are elements of the input array, the number of ranges is at most the
  number of distinct input timestamps, the start of each range exceeds the end of the range
  before it by more than 0.5, and every array that was in the store before the call (the
  input array among them) is unchanged after it; the result is the one \<open>processDetections\<close>
  computes from the array's contents.
\<close>

theorem processDetections_endpoints_gaps_input_intact:
  "timestamps < length h \<longrightarrow>
     fst (processDetections_heap timestamps h) = processDetections (h ! timestamps) \<and>
     (\<forall>r \<in> set (fst (processDetections_heap timestamps h)).
        start r \<in> set (h ! timestamps) \<and> end' r \<in> set (h ! timestamps)) \<and>
     length (fst (processDetections_heap timestamps h)) \<le> card (set (h ! timestamps)) \<and>
     (\<forall>i. Suc i < length (fst (processDetections_heap timestamps h)) \<longrightarrow>
        start (fst (processDetections_heap timestamps h) ! Suc i) -
        end' (fst (processDetections_heap timestamps h) ! i) > 0.5) \<and>
     snd (processDetections_heap timestamps h) ! timestamps = h ! timestamps \<and>
     (\<forall>a < length h. snd (processDetections_heap timestamps h) ! a = h ! a)"
proof
  assume a: "timestamps < length h"
  let ?ts = "h ! timestamps"
  have r: "fst (processDetections_heap timestamps h) = processDetections ?ts"
    and st: "\<forall>a < length h. snd (processDetections_heap timestamps h) ! a = h ! a"
    using processDetections_heap_result [OF a] by simp_all
  have "merged (processDetections ?ts)" by (rule processDetections_merged)
  then have sep: "sorted_wrt (\<lambda>r r'. start r' - end' r > TOLERANCE) (processDetections ?ts)"
    by (simp add: merged_def)
  have gaps: "\<forall>i. Suc i < length (processDetections ?ts) \<longrightarrow>
        start (processDetections ?ts ! Suc i) - end' (processDetections ?ts ! i) > 0.5"
    using sorted_wrt_nth_less [OF sep] by (simp add: TOLERANCE_def)
  show "fst (processDetections_heap timestamps h) = processDetections (h ! timestamps) \<and>
     (\<forall>r \<in> set (fst (processDetections_heap timestamps h)).
        start r \<in> set (h ! timestamps) \<and> end' r \<in> set (h ! timestamps)) \<and>
     length (fst (processDetections_heap timestamps h)) \<le> card (set (h ! timestamps)) \<and>
     (\<forall>i. Suc i < length (fst (processDetections_heap timestamps h)) \<longrightarrow>
        start (fst (processDetections_heap timestamps h) ! Suc i) -
        end' (fst (processDetections_heap timestamps h) ! i) > 0.5) \<and>
     snd (processDetections_heap timestamps h) ! timestamps = h ! timestamps \<and>
     (\<forall>a < length h. snd (processDetections_heap timestamps h) ! a = h ! a)"
    unfolding r using gaps st a processDetections_endpoints [of _ ?ts] processDetections_count [of ?ts]
    by simp
qed

theorem processDetections_endpoints_gaps_input_intact_witness:
  "(0 :: nat) < length [map rnd [5.3, 1.2, 1.0, 5.0, 1.6]] \<and>
   fst (processDetections_heap 0 [map rnd [5.3, 1.2, 1.0, 5.0, 1.6]]) =
     [\<lparr>start = rnd 1.0, end' = rnd 1.6, confidence = 1\<rparr>,
      \<lparr>start = rnd 5.0, end' = rnd 5.3, confidence = 1\<rparr>] \<and>
   snd (processDetections_heap 0 [map rnd [5.3, 1.2, 1.0, 5.0, 1.6]]) ! 1 =
     map rnd [1.0, 1.2, 1.6, 5.0, 5.3] \<and>
   snd (processDetections_heap 0 [map rnd [5.3, 1.2, 1.0, 5.0, 1.6]]) ! 0 =
     map rnd [5.3, 1.2, 1.0, 5.0, 1.6] \<and>
   start (fst (processDetections_heap 0 [map rnd [5.3, 1.2, 1.0, 5.0, 1.6]]) ! Suc 0) -
     end' (fst (processDetections_heap 0 [map rnd [5.3, 1.2, 1.0, 5.0, 1.6]]) ! 0) > 0.5"
proof -
  have l: "(0 :: nat) < length [map rnd [5.3, 1.2, 1.0, 5.0, 1.6]]" by simp
  have out: "fst (processDetections_heap 0 [map rnd [5.3, 1.2, 1.0, 5.0, 1.6]]) =
     [\<lparr>start = rnd 1.0, end' = rnd 1.6, confidence = 1\<rparr>,
      \<lparr>start = rnd 5.0, end' = rnd 5.3, confidence = 1\<rparr>]" by code_simp
  have copy: "snd (processDetections_heap 0 [map rnd [5.3, 1.2, 1.0, 5.0, 1.6]]) ! 1 =
     map rnd [1.0, 1.2, 1.6, 5.0, 5.3]" by code_simp
  have two: "Suc 0 < length (fst (processDetections_heap 0 [map rnd [5.3, 1.2, 1.0, 5.0, 1.6]]))"
    by code_simp
  from processDetections_endpoints_gaps_input_intact [of 0 "[map rnd [5.3, 1.2, 1.0, 5.0, 1.6]]"] l two
  have "snd (processDetections_heap 0 [map rnd [5.3, 1.2, 1.0, 5.0, 1.6]]) ! 0 =
          [map rnd [5.3, 1.2, 1.0, 5.0, 1.6]] ! 0 \<and>
        start (fst (processDetections_heap 0 [map rnd [5.3, 1.2, 1.0, 5.0, 1.6]]) ! Suc 0) -
          end' (fst (processDetections_heap 0 [map rnd [5.3, 1.2, 1.0, 5.0, 1.6]]) ! 0) > 0.5"
    by blast
  with l out copy show ?thesis by simp
qed

text \<open>
  Claim C2, as amended. Merging again the boundary points of the output reproduces the
  output exactly when every output range is at most 0.5 wide, the width \<open>end - start\<close>
  taken as the code computes it, rounded to double precision. (Otherwise the second merge
  splits the range: it sees its start and end more than 0.5 apart.)
\<close>

theorem processDetections_remerge_endpoints:
  "processDetections (endpoints (processDetections timestamps)) = processDetections timestamps
     \<longleftrightarrow> (\<forall>r \<in> set (processDetections timestamps). rnd (end' r - start r) \<le> 0.5)"
  using remerge_endpoints [OF processDetections_merged, of timestamps]
  by (simp add: TOLERANCE_def)

theorem processDetections_remerge_endpoints_witness:
  "list_all (\<lambda>r. rnd (end' r - start r) \<le> 0.5) (processDetections (map rnd [5.0, 1.2, 1.0])) \<and>
   processDetections (endpoints (processDetections (map rnd [5.0, 1.2, 1.0]))) =
     processDetections (map rnd [5.0, 1.2, 1.0]) \<and>
   list_all (\<lambda>r. rnd (end' r - start r) \<le> 0.5) (processDetections [rnd 0.3, rnd 0.8]) \<and>
   processDetections (endpoints (processDetections [rnd 0.3, rnd 0.8])) =
     processDetections [rnd 0.3, rnd 0.8]"
proof -
  have 1: "list_all (\<lambda>r. rnd (end' r - start r) \<le> 0.5) (processDetections (map rnd [5.0, 1.2, 1.0]))"
    by code_simp
  have 2: "list_all (\<lambda>r. rnd (end' r - start r) \<le> 0.5) (processDetections [rnd 0.3, rnd 0.8])"
    by code_simp
  from processDetections_remerge_endpoints [of "map rnd [5.0, 1.2, 1.0]"] 1
  have 3: "processDetections (endpoints (processDetections (map rnd [5.0, 1.2, 1.0]))) =
     processDetections (map rnd [5.0, 1.2, 1.0])" by (simp add: list_all_iff)
  from processDetections_remerge_endpoints [of "[rnd 0.3, rnd 0.8]"] 2
  have 4: "processDetections (endpoints (processDetections [rnd 0.3, rnd 0.8])) =
     processDetections [rnd 0.3, rnd 0.8]" by (simp add: list_all_iff)
  from 1 2 3 4 show ?thesis by blast
qed

text \<open>
  Claim C2, as stated, fails: the input \<open>[1.0, 1.2, 1.6]\<close> merges to the one range from 1.0
  to 1.6, and its boundary points \<open>[1.0, 1.6]\<close> merge to two zero-width ranges.
\<close>

theorem processDetections_remerge_counterexample:
  "processDetections (endpoints (processDetections (map rnd [1.0, 1.2, 1.6]))) =
     [\<lparr>start = rnd 1.0, end' = rnd 1.0, confidence = 1\<rparr>,
      \<lparr>start = rnd 1.6, end' = rnd 1.6, confidence = 1\<rparr>] \<and>
   processDetections (map rnd [1.0, 1.2, 1.6]) =
     [\<lparr>start = rnd 1.0, end' = rnd 1.6, confidence = 1\<rparr>] \<and>
   processDetections (endpoints (processDetections (map rnd [1.0, 1.2, 1.6]))) \<noteq>
     processDetections (map rnd [1.0, 1.2, 1.6])"
  by code_simp

section \<open>Proofs: orchestrator\<close>

subsection \<open>Invariants of the orchestrator\<close>

lemma length_update_at: "length (update_at i f xs) = length xs"
  by (simp add: update_at_def)

lemma nth_update_at:
  "update_at i f xs ! j = (if j = i \<and> i < length xs then f (xs ! i) else xs ! j)"
  by (simp add: update_at_def)

lemma map_update_at: "(\<And>x. g (f x) = g x) \<Longrightarrow> map g (update_at i f xs) = map g xs"
  by (simp add: update_at_def map_update list_update_same_conv)

lemma image_set_update_at:
  "(\<And>x. g (f x) = g x) \<Longrightarrow> g ` set (update_at i f xs) = g ` set xs"
  using map_update_at [of g f i xs] by (metis set_map)

lemmas ops = setState_def abort_def terminate_def postMessage_def signal_aborted_def
  startCalibration_def imageSettled_def startVideoProcessing_def beginPlayback_def
  finishProcessing_def processVideo_def unmount_def

lemma alive_terminate: "alive (update_at w (\<lambda>x. x\<lparr>terminated := True\<rparr>) rs) = alive rs - {w}"
  by (auto simp: alive_def length_update_at nth_update_at)

lemma alive_abort: "alive (update_at c (\<lambda>x. x\<lparr>aborted := True\<rparr>) rs) = alive rs"
  by (auto simp: alive_def length_update_at nth_update_at)

lemma alive_post: "alive (update_at r (\<lambda>x. x\<lparr>posted := f x\<rparr>) rs) = alive rs"
  by (auto simp: alive_def length_update_at nth_update_at)

lemma alive_append:
  "alive (rs @ [x]) = (if terminated x then alive rs else insert (length rs) (alive rs))"
  by (auto simp: alive_def nth_append less_Suc_eq)

lemma unaborted_terminate: "unaborted (update_at w (\<lambda>x. x\<lparr>terminated := True\<rparr>) rs) = unaborted rs"
  by (auto simp: unaborted_def length_update_at nth_update_at)

lemma unaborted_abort: "unaborted (update_at c (\<lambda>x. x\<lparr>aborted := True\<rparr>) rs) = unaborted rs - {c}"
  by (auto simp: unaborted_def length_update_at nth_update_at)

lemma unaborted_post: "unaborted (update_at r (\<lambda>x. x\<lparr>posted := f x\<rparr>) rs) = unaborted rs"
  by (auto simp: unaborted_def length_update_at nth_update_at)

lemma unaborted_append:
  "unaborted (rs @ [x]) = (if aborted x then unaborted rs else insert (length rs) (unaborted rs))"
  by (auto simp: unaborted_def nth_append less_Suc_eq)

lemmas flags = alive_terminate alive_abort alive_post alive_append
  unaborted_terminate unaborted_abort unaborted_post unaborted_append length_update_at
  image_set_update_at

lemma coherent_init: "coherent (init ctx)"
  by (simp add: coherent_def init_def alive_def unaborted_def)

lemma coherent_processVideo: "coherent s \<Longrightarrow> coherent (processVideo v i s)"
  unfolding coherent_def
  by (auto simp: ops Let_def flags split: option.splits)

lemma coherent_unmount: "coherent s \<Longrightarrow> coherent (unmount s)"
  unfolding coherent_def
  by (auto simp: ops Let_def flags split: option.splits)

lemma loop_frame:
  "alive (runs (loop t ok a s)) = alive (runs s)"
  "unaborted (runs (loop t ok a s)) = unaborted (runs s)"
  "length (runs (loop t ok a s)) = length (runs s)"
  "abortControllerRef (loop t ok a s) = abortControllerRef s"
  "workerRef (loop t ok a s) = workerRef s"
  "length (invocations (loop t ok a s)) = length (invocations s)"
  "map p_run (invocations (loop t ok a s)) = map p_run (invocations s)"
  "map p_phase (invocations (loop t ok a s)) = map p_phase (invocations s)"
  "onloadeddata (videoElement (loop t ok a s)) = onloadeddata (videoElement s)"
  "onended (videoElement (loop t ok a s)) = onended (videoElement s)"
  "onerror (videoElement (loop t ok a s)) = onerror (videoElement s)"
  "duration (videoElement (loop t ok a s)) = duration (videoElement s)"
  "rawDetectionsRef (loop t ok a s) = rawDetectionsRef s"
  "detections (state (loop t ok a s)) = detections (state s)"
  "status (state (loop t ok a s)) = status (state s)"
  "isProcessing (state (loop t ok a s)) = isProcessing (state s)"
  "calibrations (loop t ok a s) = calibrations s"
  "hasContext (loop t ok a s) = hasContext s"
  by (simp_all add: loop_def Let_def ops flags map_update_at)

lemma fold_loop_frame:
  "alive (runs (fold (loop t ok) cbs s)) = alive (runs s)"
  "unaborted (runs (fold (loop t ok) cbs s)) = unaborted (runs s)"
  "length (runs (fold (loop t ok) cbs s)) = length (runs s)"
  "abortControllerRef (fold (loop t ok) cbs s) = abortControllerRef s"
  "workerRef (fold (loop t ok) cbs s) = workerRef s"
  "length (invocations (fold (loop t ok) cbs s)) = length (invocations s)"
  "map p_run (invocations (fold (loop t ok) cbs s)) = map p_run (invocations s)"
  "map p_phase (invocations (fold (loop t ok) cbs s)) = map p_phase (invocations s)"
  "onloadeddata (videoElement (fold (loop t ok) cbs s)) = onloadeddata (videoElement s)"
  "onended (videoElement (fold (loop t ok) cbs s)) = onended (videoElement s)"
  "onerror (videoElement (fold (loop t ok) cbs s)) = onerror (videoElement s)"
  "duration (videoElement (fold (loop t ok) cbs s)) = duration (videoElement s)"
  "rawDetectionsRef (fold (loop t ok) cbs s) = rawDetectionsRef s"
  "detections (state (fold (loop t ok) cbs s)) = detections (state s)"
  "status (state (fold (loop t ok) cbs s)) = status (state s)"
  "isProcessing (state (fold (loop t ok) cbs s)) = isProcessing (state s)"
  "calibrations (fold (loop t ok) cbs s) = calibrations s"
  "hasContext (fold (loop t ok) cbs s) = hasContext s"
  by (induction cbs arbitrary: s; simp add: loop_frame)+

lemma loop_callbacks:
  "set (frameCallbacks (videoElement (loop t ok a s))) \<subseteq> insert a (set (frameCallbacks (videoElement s)))"
  by (auto simp: loop_def Let_def ops)

lemma fold_loop_callbacks:
  "set (frameCallbacks (videoElement (fold (loop t ok) cbs s))) \<subseteq>
     set cbs \<union> set (frameCallbacks (videoElement s))"
proof (induction cbs arbitrary: s)
  case Nil
  show ?case by simp
next
  case (Cons a cbs)
  from Cons.IH [of "loop t ok a s"] loop_callbacks [of t ok a s] show ?case by auto
qed

lemma coherent_frame: "coherent s \<Longrightarrow> coherent (step (Frame t ok) s)"
proof -
  assume w: "coherent s"
  let ?s' = "s\<lparr>videoElement := (videoElement s)\<lparr>frameCallbacks := []\<rparr>\<rparr>"
  have "set (frameCallbacks (videoElement (fold (loop t ok) (frameCallbacks (videoElement s)) ?s')))
          \<subseteq> set (frameCallbacks (videoElement s))"
    using fold_loop_callbacks [of t ok "frameCallbacks (videoElement s)" ?s'] by simp
  with w show ?thesis unfolding coherent_def by (simp add: fold_loop_frame) blast
qed

lemma coherent_onmessage: "coherent s \<Longrightarrow> r < length (runs s) \<Longrightarrow> coherent (onmessage r m s)"
  unfolding coherent_def
  by (cases m) (auto simp: ops Let_def flags map_update_at less_Suc_eq split: option.splits)

lemma coherent_imageSettled: "coherent s \<Longrightarrow> coherent (imageSettled c ok s)"
  unfolding coherent_def
  by (auto simp: ops Let_def flags map_update_at split: option.splits)

lemma coherent_loadedData: "coherent s \<Longrightarrow> coherent (step (LoadedData d) s)"
  unfolding coherent_def
  by (auto simp: ops Let_def flags map_update_at split: option.splits)

lemma coherent_videoError: "coherent s \<Longrightarrow> coherent (step VideoError s)"
  unfolding coherent_def
  by (auto simp: ops Let_def flags map_update_at split: option.splits)

lemma p_run_valid:
  "set (map p_run (invocations s)) \<subseteq> {..<length (runs s)} \<Longrightarrow> a < length (invocations s) \<Longrightarrow>
     p_run (invocations s ! a) < length (runs s)"
  by (metis lessThan_iff nth_map nth_mem length_map subsetD)

lemma coherent_finishProcessing:
  assumes "coherent s" and "a < length (invocations s)"
  shows "coherent (finishProcessing a s)"
proof -
  let ?r = "p_run (invocations s ! a)"
  from assms have r: "?r < length (runs s)" by (simp add: coherent_def p_run_valid)
  show ?thesis
  proof (cases "aborted (runs s ! ?r)")
    case True
    then show ?thesis using assms(1) unfolding coherent_def
      by (simp add: ops Let_def flags map_update_at)
  next
    case False
    with r have "?r \<in> unaborted (runs s)" by (simp add: unaborted_def)
    with assms(1) have "abortControllerRef s = Some ?r" by (auto simp: coherent_def)
    with assms(1) have "alive (runs s) \<subseteq> {?r}" by (auto simp: coherent_def)
    then show ?thesis using assms(1) False unfolding coherent_def
      by (auto simp: ops Let_def flags map_update_at)
  qed
qed

lemma coherent_ended: "coherent s \<Longrightarrow> coherent (step Ended s)"
proof -
  assume w: "coherent s"
  let ?s1 = "s\<lparr>videoElement := (videoElement s)\<lparr>ended := True, paused := True\<rparr>\<rparr>"
  have w1: "coherent ?s1" using w by (simp add: coherent_def)
  show ?thesis
  proof (cases "onended (videoElement s)")
    case None
    then show ?thesis using w1 by (simp add: Let_def)
  next
    case (Some a)
    with w have "a < length (invocations ?s1)" by (simp add: coherent_def)
    from coherent_finishProcessing [OF w1 this] w1 Some show ?thesis by (simp add: Let_def)
  qed
qed

lemma coherent_step: "coherent s \<Longrightarrow> coherent (step e s)"
proof (cases e)
  case (WorkerMessage r m)
  assume "coherent s" then show ?thesis using WorkerMessage coherent_onmessage by simp
qed (simp_all add: coherent_processVideo coherent_imageSettled coherent_loadedData coherent_videoError coherent_ended coherent_frame
       coherent_unmount del: step.simps(4,5,6,7))

lemma run_events_snoc: "run_events (es @ [e]) s = step e (run_events es s)"
  by (simp add: run_events_def)

lemma run_events_Cons: "run_events (e # es) s = run_events es (step e s)"
  by (simp add: run_events_def)

lemma run_events_Nil: "run_events [] s = s"
  by (simp add: run_events_def)

lemma run_events_append: "run_events (es @ es') s = run_events es' (run_events es s)"
  by (simp add: run_events_def)

lemma coherent_run_events: "coherent s \<Longrightarrow> coherent (run_events es s)"
  by (induction es rule: rev_induct) (simp_all add: run_events_snoc run_events_Nil coherent_step)

lemma coherent_reachable: "coherent (run_events es (init ctx))"
  by (simp add: coherent_run_events coherent_init)

lemma alive_not_aborted:
  "coherent s \<Longrightarrow> r < length (runs s) \<Longrightarrow> \<not> terminated (runs s ! r) \<Longrightarrow> \<not> aborted (runs s ! r)"
  by (auto simp: coherent_def alive_def unaborted_def)

lemma loop_failed_callbacks:
  "frameCallbacks (videoElement (loop t False a s)) = frameCallbacks (videoElement s)"
  "runs (loop t False a s) = runs s"
  "state (loop t False a s) = state s"
  by (simp_all add: loop_def Let_def)

lemma fold_loop_failed:
  "frameCallbacks (videoElement (fold (loop t False) cbs s)) = frameCallbacks (videoElement s)"
  "runs (fold (loop t False) cbs s) = runs s"
  "state (fold (loop t False) cbs s) = state s"
  by (induction cbs arbitrary: s; simp add: loop_failed_callbacks)+

lemma superseded_processVideo:
  assumes "coherent s"
  shows "superseded (length (runs s)) (processVideo v i s)"
  using assms unfolding coherent_def superseded_def
  by (auto simp: ops Let_def flags split: option.splits)

lemma processVideo_resets:
  "rawDetectionsRef (processVideo v i s) = []" "detections (state (processVideo v i s)) = []"
  by (simp_all add: ops Let_def split: option.splits)

lemma step_flags_mono:
  assumes "\<not> is_start e"
  shows "length (runs (step e s)) = length (runs s)"
    and "alive (runs (step e s)) \<subseteq> alive (runs s)"
    and "unaborted (runs (step e s)) \<subseteq> unaborted (runs s)"
proof -
  have "length (runs (step e s)) = length (runs s) \<and>
        alive (runs (step e s)) \<subseteq> alive (runs s) \<and>
        unaborted (runs (step e s)) \<subseteq> unaborted (runs s)"
  proof (cases e)
    case (ProcessVideo v i)
    with assms show ?thesis by simp
  next
    case (WorkerMessage r m)
    then show ?thesis by (cases m) (auto simp: ops Let_def flags)
  next
    case (Frame t ok)
    then show ?thesis by (simp add: fold_loop_frame)
  qed (auto simp: ops Let_def flags split: option.splits)
  then show "length (runs (step e s)) = length (runs s)"
    and "alive (runs (step e s)) \<subseteq> alive (runs s)"
    and "unaborted (runs (step e s)) \<subseteq> unaborted (runs s)" by simp_all
qed

lemma superseded_step: "superseded n s \<Longrightarrow> \<not> is_start e \<Longrightarrow> superseded n (step e s)"
  using step_flags_mono [of e s] unfolding superseded_def by auto

lemma own_timestamps_append:
  "own_timestamps n (es @ es') = own_timestamps n es @ own_timestamps n es'"
  by (induction n es rule: own_timestamps.induct) simp_all

lemma step_raw:
  assumes "alive (runs s) \<subseteq> {n}" and "\<not> is_start e"
  shows "rawDetectionsRef (step e s) =
           (if n \<in> alive (runs s) then rawDetectionsRef s @ own_timestamps n [e]
            else rawDetectionsRef s)"
proof (cases e)
  case (ProcessVideo v i)
  with assms show ?thesis by simp
next
  case (WorkerMessage r m)
  have del: "(r < length (runs s) \<and> \<not> terminated (runs s ! r)) = (r \<in> alive (runs s))"
    by (simp add: alive_def)
  show ?thesis
  proof (cases "r \<in> alive (runs s)")
    case True
    with assms have "r = n" by auto
    with True WorkerMessage del show ?thesis by (cases m) (simp_all add: ops Let_def)
  next
    case False
    then have "r \<noteq> n \<or> n \<notin> alive (runs s)" by auto
    with False WorkerMessage del show ?thesis by (cases m) auto
  qed
next
  case (Frame t ok)
  then show ?thesis by (simp add: fold_loop_frame)
qed (simp_all add: ops Let_def split: option.splits)

lemma step_detections:
  assumes "\<not> is_start e"
  shows "detections (state (step e s)) = detections (state s) \<or>
         detections (state (step e s)) = processDetections (rawDetectionsRef s)"
proof (cases e)
  case (ProcessVideo v i)
  with assms show ?thesis by simp
next
  case (WorkerMessage r m)
  then show ?thesis by (cases m) (simp_all add: ops Let_def)
next
  case (Frame t ok)
  then show ?thesis by (simp add: fold_loop_frame)
qed (simp_all add: ops Let_def split: option.splits)

lemma new_run_invariant:
  assumes "superseded n s" and "rawDetectionsRef s = []" and "detections (state s) = []"
      and "list_all (\<lambda>e. \<not> is_start e) es"
  shows "superseded n (run_events es s) \<and>
         (n \<in> alive (runs (run_events es s)) \<longrightarrow>
            rawDetectionsRef (run_events es s) = own_timestamps n es) \<and>
         (\<exists>k \<le> length es. rawDetectionsRef (run_events es s) = own_timestamps n (take k es)) \<and>
         (detections (state (run_events es s)) = [] \<or>
          (\<exists>k \<le> length es. detections (state (run_events es s)) =
                              processDetections (own_timestamps n (take k es))))"
  using assms(4)
proof (induction es rule: rev_induct)
  case Nil
  with assms show ?case by (simp add: run_events_Nil)
next
  case (snoc e es)
  let ?s = "run_events es s"
  from snoc.prems have e: "\<not> is_start e" and es: "list_all (\<lambda>e. \<not> is_start e) es" by simp_all
  from snoc.IH [OF es] have sup: "superseded n ?s"
    and live: "n \<in> alive (runs ?s) \<longrightarrow> rawDetectionsRef ?s = own_timestamps n es"
    and raw: "\<exists>k \<le> length es. rawDetectionsRef ?s = own_timestamps n (take k es)"
    and det: "detections (state ?s) = [] \<or>
          (\<exists>k \<le> length es. detections (state ?s) = processDetections (own_timestamps n (take k es)))"
    by simp_all
  from sup have al: "alive (runs ?s) \<subseteq> {n}" by (simp add: superseded_def)
  note rw = step_raw [OF al e]
  have mono: "alive (runs (step e ?s)) \<subseteq> alive (runs ?s)" by (rule step_flags_mono [OF e])
  have 1: "superseded n (step e ?s)" by (rule superseded_step [OF sup e])
  have 2: "n \<in> alive (runs (step e ?s)) \<longrightarrow>
            rawDetectionsRef (step e ?s) = own_timestamps n (es @ [e])"
    using mono live rw by (auto simp: own_timestamps_append)
  have 3: "\<exists>k \<le> length (es @ [e]). rawDetectionsRef (step e ?s) = own_timestamps n (take k (es @ [e]))"
  proof (cases "n \<in> alive (runs ?s)")
    case True
    with live rw have "rawDetectionsRef (step e ?s) = own_timestamps n (take (length (es @ [e])) (es @ [e]))"
      by (simp add: own_timestamps_append)
    then show ?thesis by blast
  next
    case False
    with rw raw obtain k where "k \<le> length es" "rawDetectionsRef (step e ?s) = own_timestamps n (take k es)"
      by auto
    then have "k \<le> length (es @ [e]) \<and> rawDetectionsRef (step e ?s) = own_timestamps n (take k (es @ [e]))"
      by simp
    then show ?thesis by blast
  qed
  have lift: "\<exists>k \<le> length (es @ [e]). P (take k (es @ [e]))" if "\<exists>k \<le> length es. P (take k es)" for P
  proof -
    from that obtain k where "k \<le> length es" "P (take k es)" by blast
    then have "k \<le> length (es @ [e]) \<and> P (take k (es @ [e]))" by simp
    then show ?thesis by blast
  qed
  have 4: "detections (state (step e ?s)) = [] \<or>
          (\<exists>k \<le> length (es @ [e]). detections (state (step e ?s)) =
                              processDetections (own_timestamps n (take k (es @ [e]))))"
  proof -
    from step_detections [OF e, of ?s] show ?thesis
    proof
      assume same: "detections (state (step e ?s)) = detections (state ?s)"
      from det show ?thesis
      proof
        assume "detections (state ?s) = []"
        with same show ?thesis by simp
      next
        assume "\<exists>k \<le> length es. detections (state ?s) = processDetections (own_timestamps n (take k es))"
        then have "\<exists>k \<le> length es. detections (state (step e ?s)) = processDetections (own_timestamps n (take k es))"
          using same by simp
        from lift [of "\<lambda>p. detections (state (step e ?s)) = processDetections (own_timestamps n p)", OF this]
        show ?thesis by blast
      qed
    next
      assume new: "detections (state (step e ?s)) = processDetections (rawDetectionsRef ?s)"
      from raw have "\<exists>k \<le> length es. detections (state (step e ?s)) = processDetections (own_timestamps n (take k es))"
        using new by auto
      from lift [of "\<lambda>p. detections (state (step e ?s)) = processDetections (own_timestamps n p)", OF this]
      show ?thesis by blast
    qed
  qed
  from 1 2 3 4 show ?case unfolding run_events_snoc by blast
qed

lemma stale_message_ignored:
  assumes "superseded n s" and "r < n"
  shows "step (WorkerMessage r m) s = s"
proof -
  from assms have "r \<notin> alive (runs s)" by (auto simp: superseded_def)
  then show ?thesis by (auto simp: alive_def)
qed

lemma stale_completion_ignored:
  assumes "superseded n s" and "p_run (invocations s ! a) < n"
  shows "state (finishProcessing a s) = state s"
    and "rawDetectionsRef (finishProcessing a s) = rawDetectionsRef s"
    and "runs (finishProcessing a s) = runs s"
    and "workerRef (finishProcessing a s) = workerRef s"
proof -
  from assms have "p_run (invocations s ! a) \<notin> unaborted (runs s)"
    and "p_run (invocations s ! a) < length (runs s)" by (auto simp: superseded_def)
  then have "aborted (runs s ! p_run (invocations s ! a))" by (simp add: unaborted_def)
  then show "state (finishProcessing a s) = state s"
    and "rawDetectionsRef (finishProcessing a s) = rawDetectionsRef s"
    and "runs (finishProcessing a s) = runs s"
    and "workerRef (finishProcessing a s) = workerRef s"
    by (simp_all add: ops Let_def)
qed

lemma percent_mono: "0 < d \<Longrightarrow> 0 \<le> t0 \<Longrightarrow> t0 \<le> t \<Longrightarrow> percent d t0 \<le> percent d t"
proof -
  assume d: "0 < d" and t0: "0 \<le> t0" and t: "t0 \<le> t"
  from d t0 have q0: "0 \<le> t0 / d" by simp
  from d t have "t0 / d \<le> t / d" by (simp add: divide_right_mono)
  from rnd_mono_nonneg [OF q0 this] have "rnd (t0 / d) * 100 \<le> rnd (t / d) * 100" by simp
  moreover have "0 \<le> rnd (t0 / d) * 100" using rnd_nonneg [OF q0] by simp
  ultimately have "rnd (rnd (t0 / d) * 100) \<le> rnd (rnd (t / d) * 100)" by (intro rnd_mono_nonneg)
  then have "round (rnd (rnd (t0 / d) * 100)) \<le> round (rnd (rnd (t / d) * 100))" by (rule round_mono)
  then show ?thesis by (simp add: percent_def)
qed

lemma percent_le: "percent d t \<le> 100"
  by (simp add: percent_def)

lemma reports_ok_mono: "reports_ok d T s \<Longrightarrow> T \<subseteq> T' \<Longrightarrow> reports_ok d T' s"
  unfolding reports_ok_def by blast

lemma loop_nth_frame:
  "aborted (runs (loop t ok a s) ! r) = aborted (runs s ! r)"
  "p_run (invocations (loop t ok a s) ! b) = p_run (invocations s ! b)"
  by (simp_all add: loop_def Let_def ops nth_update_at)

lemma fold_loop_nth_frame:
  "aborted (runs (fold (loop t ok) cbs s) ! r) = aborted (runs s ! r)"
  "p_run (invocations (fold (loop t ok) cbs s) ! b) = p_run (invocations s ! b)"
  by (induction cbs arbitrary: s; simp add: loop_nth_frame)+

lemma loop_in_order:
  assumes "in_order d t T s" and "t \<in> T"
      and "\<not> aborted (runs s ! p_run (invocations s ! a)) \<longrightarrow> duration (videoElement s) = d"
  shows "in_order d t T (loop t ok a s)"
proof (cases "\<not> aborted (runs s ! p_run (invocations s ! a)) \<and> ok \<and>
              frameCount (update_at a (\<lambda>x. x\<lparr>frameCount := frameCount x + 1\<rparr>) (invocations s) ! a)
                mod 30 = 0")
  case True
  with assms(3) have dur: "duration (videoElement s) = d" by simp
  have "reported (loop t ok a s) = reported s @ [(FromLoop, percent d t)]"
    using True dur by (simp add: loop_def Let_def ops percent_def)
  then have rep: "loop_reports (loop t ok a s) = loop_reports s @ [percent d t]"
    by (simp add: loop_reports_def)
  show ?thesis using assms(1,2) unfolding in_order_def reports_ok_def rep
    by (auto simp: sorted_append)
next
  case False
  then have "reported (loop t ok a s) = reported s"
    by (auto simp: loop_def Let_def ops)
  then have "loop_reports (loop t ok a s) = loop_reports s" by (simp add: loop_reports_def)
  with assms(1) show ?thesis by (simp add: in_order_def reports_ok_def)
qed

lemma fold_loop_in_order:
  assumes "in_order d t T s" and "t \<in> T"
      and "\<forall>a \<in> set cbs. \<not> aborted (runs s ! p_run (invocations s ! a)) \<longrightarrow> duration (videoElement s) = d"
  shows "in_order d t T (fold (loop t ok) cbs s)"
  using assms
proof (induction cbs arbitrary: s)
  case Nil
  then show ?case by simp
next
  case (Cons a cbs)
  have 1: "in_order d t T (loop t ok a s)"
    by (rule loop_in_order [OF Cons.prems(1,2)]) (use Cons.prems(3) in simp)
  have 2: "\<forall>b \<in> set cbs. \<not> aborted (runs (loop t ok a s) ! p_run (invocations (loop t ok a s) ! b)) \<longrightarrow>
             duration (videoElement (loop t ok a s)) = d"
    using Cons.prems(3) by (simp add: loop_nth_frame loop_frame)
  from Cons.IH [OF 1 Cons.prems(2) 2] show ?case by simp
qed

lemma in_order_later:
  "in_order d t0 T s \<Longrightarrow> 0 < d \<Longrightarrow> 0 \<le> t0 \<Longrightarrow> t0 \<le> t \<Longrightarrow> T \<subseteq> T' \<Longrightarrow> in_order d t T' s"
  using percent_mono [of d t0 t] reports_ok_mono [of d T s T'] unfolding in_order_def by fastforce

lemma playing_frame:
  assumes "playing d t0 T s" and "0 < d" and "0 \<le> t0" and "t0 \<le> t"
  shows "playing d t (insert t T) (step (Frame t ok) s)"
proof -
  let ?cbs = "frameCallbacks (videoElement s)"
  let ?s' = "s\<lparr>videoElement := (videoElement s)\<lparr>frameCallbacks := []\<rparr>\<rparr>"
  from assms(1) have io: "in_order d t0 T s" and w: "coherent s"
    and du: "\<forall>a \<in> set ?cbs. \<not> aborted (runs s ! p_run (invocations s ! a)) \<longrightarrow> duration (videoElement s) = d"
    by (simp_all add: playing_def)
  from in_order_later [OF io assms(2,3,4), of "insert t T"] have "in_order d t (insert t T) s" by auto
  then have io': "in_order d t (insert t T) ?s'"
    by (simp add: in_order_def reports_ok_def loop_reports_def)
  have du': "\<forall>a \<in> set ?cbs. \<not> aborted (runs ?s' ! p_run (invocations ?s' ! a)) \<longrightarrow> duration (videoElement ?s') = d"
    using du by simp
  have 1: "in_order d t (insert t T) (step (Frame t ok) s)"
    using fold_loop_in_order [OF io' _ du', of ok] by simp
  have 2: "coherent (step (Frame t ok) s)" by (rule coherent_frame [OF w])
  have "set (frameCallbacks (videoElement (step (Frame t ok) s))) \<subseteq> set ?cbs"
    using fold_loop_callbacks [of t ok ?cbs ?s'] by simp
  then have 3: "\<forall>a \<in> set (frameCallbacks (videoElement (step (Frame t ok) s))).
         \<not> aborted (runs (step (Frame t ok) s) ! p_run (invocations (step (Frame t ok) s) ! a)) \<longrightarrow>
         duration (videoElement (step (Frame t ok) s)) = d"
    using du by (auto simp: fold_loop_nth_frame fold_loop_frame)
  from 1 2 3 show ?thesis by (simp add: playing_def)
qed

lemma step_quiet:
  assumes "\<not> is_start e" and "frame_times [e] = []"
  shows "loop_reports (step e s) = loop_reports s"
proof (cases e)
  case (WorkerMessage r m)
  then show ?thesis by (cases m) (simp_all add: ops Let_def loop_reports_def)
qed (use assms in \<open>simp_all add: ops Let_def loop_reports_def split: option.splits\<close>)

lemma coherent_callbacks_valid:
  "coherent s \<Longrightarrow> a \<in> set (frameCallbacks (videoElement s)) \<Longrightarrow> a < length (invocations s)"
  by (auto simp: coherent_def)

lemma step_duration_known:
  assumes "coherent s" and "\<not> is_start e" and "frame_times [e] = []"
      and "\<forall>d'. e = LoadedData d' \<longrightarrow> d' = d"
      and "\<forall>a \<in> set (frameCallbacks (videoElement s)).
             \<not> aborted (runs s ! p_run (invocations s ! a)) \<longrightarrow> duration (videoElement s) = d"
  shows "\<forall>a \<in> set (frameCallbacks (videoElement (step e s))).
           \<not> aborted (runs (step e s) ! p_run (invocations (step e s) ! a)) \<longrightarrow>
           duration (videoElement (step e s)) = d"
proof (cases e)
  case (ProcessVideo v i)
  with assms show ?thesis by simp
next
  case (WorkerMessage r m)
  show ?thesis
  proof (cases m)
    case READY
    with WorkerMessage assms(5) show ?thesis by (simp add: ops Let_def)
  next
    case CALIBRATION_COMPLETE
    with WorkerMessage assms(5) coherent_callbacks_valid [OF assms(1)] show ?thesis
      by (auto simp: ops Let_def nth_append)
  next
    case CALIBRATION_FAILED
    with WorkerMessage assms(5) coherent_callbacks_valid [OF assms(1)] show ?thesis
      by (auto simp: ops Let_def nth_append)
  next
    case (FRAME_RESULT x y)
    with WorkerMessage assms(5) show ?thesis by (simp add: ops Let_def)
  next
    case OTHER
    with WorkerMessage assms(5) show ?thesis by (simp add: ops Let_def)
  qed
next
  case (ImageSettled c ok)
  have "aborted (runs (step e s) ! r) = aborted (runs s ! r)"
       "invocations (step e s) = invocations s" "videoElement (step e s) = videoElement s" for r
    using ImageSettled by (simp_all add: ops Let_def nth_update_at)
  with assms(5) show ?thesis by simp
next
  case (LoadedData d')
  with assms(4) have "d' = d" by simp
  with LoadedData show ?thesis by (auto simp: ops Let_def nth_update_at split: option.splits)
next
  case VideoError
  with assms(5) show ?thesis by (auto simp: ops Let_def nth_update_at split: option.splits)
next
  case Ended
  have "aborted (runs (step e s) ! r) = aborted (runs s ! r)"
       "p_run (invocations (step e s) ! b) = p_run (invocations s ! b)"
       "frameCallbacks (videoElement (step e s)) = frameCallbacks (videoElement s)"
       "duration (videoElement (step e s)) = duration (videoElement s)" for r b
    using Ended by (simp_all add: ops Let_def nth_update_at split: option.splits)
  with assms(5) show ?thesis by simp
next
  case (Frame t ok)
  with assms show ?thesis by simp
next
  case Unmount
  with assms(5) show ?thesis by (auto simp: ops Let_def nth_update_at split: option.splits)
qed

lemma playing_step:
  assumes "playing d t T s" and "\<not> is_start e" and "frame_times [e] = []"
      and "\<forall>d'. e = LoadedData d' \<longrightarrow> d' = d"
  shows "playing d t T (step e s)"
proof -
  from assms(1) have io: "in_order d t T s" and w: "coherent s"
    and du: "\<forall>a \<in> set (frameCallbacks (videoElement s)).
             \<not> aborted (runs s ! p_run (invocations s ! a)) \<longrightarrow> duration (videoElement s) = d"
    by (simp_all add: playing_def)
  have "in_order d t T (step e s)"
    using io step_quiet [OF assms(2,3), of s] by (simp add: in_order_def reports_ok_def)
  moreover have "coherent (step e s)" by (rule coherent_step [OF w])
  ultimately show ?thesis using step_duration_known [OF w assms(2,3,4) du]
    by (simp add: playing_def)
qed

lemma playback_reports_ok:
  "playback d t0 es \<Longrightarrow> 0 < d \<Longrightarrow> 0 \<le> t0 \<Longrightarrow> playing d t0 T s \<Longrightarrow>
     reports_ok d (T \<union> set (frame_times es)) (run_events es s)"
proof (induction d t0 es arbitrary: T s rule: playback.induct)
  case (1 d t0)
  then show ?case by (simp add: run_events_Nil playing_def in_order_def)
next
  case (2 d t0 vUrl rUrl es)
  then show ?case by simp
next
  case (3 d t0 d' es)
  from "3.prems" have pb: "playback d t0 es" and dd: "d' = d" by simp_all
  have "playing d t0 T (step (LoadedData d') s)"
    by (rule playing_step [OF "3.prems"(4)]) (simp_all add: dd)
  from "3.IH" [OF pb "3.prems"(2,3) this] show ?case by (simp add: run_events_Cons)
next
  case (4 d t0 t ok es)
  from "4.prems" have pb: "playback d t es" and tt: "t0 \<le> t" by simp_all
  from tt "4.prems"(3) have t: "0 \<le> t" by simp
  have "T \<union> set (frame_times (Frame t ok # es)) = insert t T \<union> set (frame_times es)" by auto
  with "4.IH" [OF pb "4.prems"(2) t playing_frame [OF "4.prems"(4,2,3) tt, of ok]] show ?case
    by (simp add: run_events_Cons)
next
  case (5 d t0 es)
  have "playing d t0 T (step Ended s)"
    by (rule playing_step [OF "5.prems"(4)]) simp_all
  from "5.IH" [OF _ "5.prems"(2,3) this] "5.prems"(1) show ?case by (simp add: run_events_Cons)
next
  case (6 d t0 r m es)
  have "playing d t0 T (step (WorkerMessage r m) s)"
    by (rule playing_step [OF "6.prems"(4)]) simp_all
  from "6.IH" [OF _ "6.prems"(2,3) this] "6.prems"(1) show ?case by (simp add: run_events_Cons)
next
  case (7 d t0 c ok es)
  have "playing d t0 T (step (ImageSettled c ok) s)"
    by (rule playing_step [OF "7.prems"(4)]) simp_all
  from "7.IH" [OF _ "7.prems"(2,3) this] "7.prems"(1) show ?case by (simp add: run_events_Cons)
next
  case (8 d t0 es)
  have "playing d t0 T (step VideoError s)"
    by (rule playing_step [OF "8.prems"(4)]) simp_all
  from "8.IH" [OF _ "8.prems"(2,3) this] "8.prems"(1) show ?case by (simp add: run_events_Cons)
next
  case (9 d t0 es)
  have "playing d t0 T (step Unmount s)"
    by (rule playing_step [OF "9.prems"(4)]) simp_all
  from "9.IH" [OF _ "9.prems"(2,3) this] "9.prems"(1) show ?case by (simp add: run_events_Cons)
qed

lemma playing_processVideo:
  assumes "coherent s"
  shows "playing d 0 {} (processVideo v i s)"
proof -
  let ?s1 = "processVideo v i s"
  let ?n = "length (runs s)"
  have sup: "superseded ?n ?s1" by (rule superseded_processVideo [OF assms])
  have w1: "coherent ?s1" by (rule coherent_processVideo [OF assms])
  have rep: "reported ?s1 = [(Reset, 0)]"
    and same: "invocations ?s1 = invocations s"
              "frameCallbacks (videoElement ?s1) = frameCallbacks (videoElement s)"
    by (simp_all add: ops Let_def split: option.splits)
  have io: "in_order d 0 {} ?s1"
    unfolding in_order_def reports_ok_def loop_reports_def rep by simp
  have "aborted (runs ?s1 ! p_run (invocations ?s1 ! a))"
    if a: "a \<in> set (frameCallbacks (videoElement ?s1))" for a
  proof -
    from a same have "a < length (invocations s)" using coherent_callbacks_valid [OF assms] by simp
    with assms have r: "p_run (invocations s ! a) < ?n" by (simp add: coherent_def p_run_valid)
    with sup have "p_run (invocations s ! a) \<notin> unaborted (runs ?s1)"
      and "p_run (invocations s ! a) < length (runs ?s1)" by (auto simp: superseded_def)
    then show ?thesis unfolding same by (simp add: unaborted_def)
  qed
  with io w1 show ?thesis by (simp add: playing_def)
qed

lemma completion_sets_100:
  "status (state (step e s)) = completed \<Longrightarrow>
     status (state s) = completed \<or> progress (state (step e s)) = 100"
proof (cases e)
  case (WorkerMessage r m)
  assume "status (state (step e s)) = completed"
  then show ?thesis using WorkerMessage by (cases m) (auto simp: ops Let_def split: if_splits)
next
  case (Frame t ok)
  assume "status (state (step e s)) = completed"
  then show ?thesis using Frame by (simp add: fold_loop_frame)
qed (auto simp: ops Let_def split: option.splits if_splits)

subsection \<open>Claims about the orchestrator\<close>

text \<open>
  Claim C1. Let a call of \<open>processVideo\<close> follow any history \<open>es1\<close> (a run may be in
  progress), and let \<open>es2\<close> be what happens afterwards, with no further call. In the state
  reached: a message of the worker of any earlier call changes nothing; the completion of an
  invocation of \<open>startVideoProcessing\<close> that belongs to an earlier call leaves the React
  state, the raw detections and the workers as they are; the raw detections are exactly the
  positive timestamps that the new call's own worker posted, up to some point of \<open>es2\<close>;
  and the published detections are empty or the merge of such timestamps.
\<close>

theorem stale_run_invalidated:
  assumes "list_all (\<lambda>e. \<not> is_start e) es2"
  shows "let n = length (runs (run_events es1 (init ctx)));
             s = run_events (es1 @ ProcessVideo vUrl rUrl # es2) (init ctx)
         in (\<forall>r m. r < n \<longrightarrow> step (WorkerMessage r m) s = s) \<and>
            (\<forall>a. p_run (invocations s ! a) < n \<longrightarrow>
                 state (finishProcessing a s) = state s \<and>
                 rawDetectionsRef (finishProcessing a s) = rawDetectionsRef s \<and>
                 runs (finishProcessing a s) = runs s) \<and>
            (\<exists>k \<le> length es2. rawDetectionsRef s = own_timestamps n (take k es2)) \<and>
            (detections (state s) = [] \<or>
             (\<exists>k \<le> length es2.
                detections (state s) = processDetections (own_timestamps n (take k es2))))"
proof -
  let ?before = "run_events es1 (init ctx)"
  let ?n = "length (runs ?before)"
  let ?started = "processVideo vUrl rUrl ?before"
  let ?after = "run_events es2 ?started"
  have eq: "run_events (es1 @ ProcessVideo vUrl rUrl # es2) (init ctx) = ?after"
    by (simp add: run_events_append run_events_Cons)
  have sup: "superseded ?n ?started" by (rule superseded_processVideo [OF coherent_reachable])
  from new_run_invariant [OF sup processVideo_resets assms]
  have sup': "superseded ?n ?after"
    and raw: "\<exists>k \<le> length es2. rawDetectionsRef ?after = own_timestamps ?n (take k es2)"
    and det: "detections (state ?after) = [] \<or>
             (\<exists>k \<le> length es2. detections (state ?after) = processDetections (own_timestamps ?n (take k es2)))"
    by simp_all
  have msg: "\<forall>r m. r < ?n \<longrightarrow> step (WorkerMessage r m) ?after = ?after"
    using stale_message_ignored [OF sup'] by blast
  have fin: "\<forall>a. p_run (invocations ?after ! a) < ?n \<longrightarrow>
                 state (finishProcessing a ?after) = state ?after \<and>
                 rawDetectionsRef (finishProcessing a ?after) = rawDetectionsRef ?after \<and>
                 runs (finishProcessing a ?after) = runs ?after"
    using stale_completion_ignored [OF sup'] by blast
  from msg fin raw det show ?thesis unfolding Let_def eq by blast
qed

theorem stale_run_invalidated_witness:
  "list_all (\<lambda>e. \<not> is_start e) second_run \<and>
   length (runs (run_events first_run (init True))) = 1 \<and>
   rawDetectionsRef (run_events first_run (init True)) = [1] \<and>
   rawDetectionsRef (run_events (first_run @ ProcessVideo ''video2'' ''reference'' # second_run)
                      (init True)) = [7] \<and>
   detections (state (run_events (first_run @ ProcessVideo ''video2'' ''reference'' # second_run)
                        (init True))) = [\<lparr>start = 7, end' = 7, confidence = 1\<rparr>] \<and>
   step (WorkerMessage 0 (FRAME_RESULT True 1.2))
     (run_events (first_run @ ProcessVideo ''video2'' ''reference'' # second_run) (init True)) =
     run_events (first_run @ ProcessVideo ''video2'' ''reference'' # second_run) (init True) \<and>
   p_run (invocations (run_events (first_run @ ProcessVideo ''video2'' ''reference'' # second_run)
                         (init True)) ! 0) = 0 \<and>
   state (finishProcessing 0
            (run_events (first_run @ ProcessVideo ''video2'' ''reference'' # second_run) (init True))) =
     state (run_events (first_run @ ProcessVideo ''video2'' ''reference'' # second_run) (init True))"
proof -
  have h: "list_all (\<lambda>e. \<not> is_start e) second_run" by code_simp
  have n: "length (runs (run_events first_run (init True))) = 1" by code_simp
  have r1: "rawDetectionsRef (run_events first_run (init True)) = [1]" by code_simp
  have r2: "rawDetectionsRef (run_events (first_run @ ProcessVideo ''video2'' ''reference'' # second_run)
                      (init True)) = [7]" by code_simp
  have d: "detections (state (run_events (first_run @ ProcessVideo ''video2'' ''reference'' # second_run)
                        (init True))) = [\<lparr>start = 7, end' = 7, confidence = 1\<rparr>]" by code_simp
  have p: "p_run (invocations (run_events (first_run @ ProcessVideo ''video2'' ''reference'' # second_run)
                         (init True)) ! 0) = 0" by code_simp
  from stale_run_invalidated [OF h, of first_run True "''video2''" "''reference''"]
  have "step (WorkerMessage 0 (FRAME_RESULT True 1.2))
     (run_events (first_run @ ProcessVideo ''video2'' ''reference'' # second_run) (init True)) =
     run_events (first_run @ ProcessVideo ''video2'' ''reference'' # second_run) (init True) \<and>
     state (finishProcessing 0
            (run_events (first_run @ ProcessVideo ''video2'' ''reference'' # second_run) (init True))) =
     state (run_events (first_run @ ProcessVideo ''video2'' ''reference'' # second_run) (init True))"
    unfolding Let_def n using p by simp
  with h n r1 r2 d p show ?thesis by simp
qed

text \<open>
  Claim C5 fails on the code: \<open>requestVideoFrameCallback(loop)\<close> stands inside the \<open>try\<close>
  block, so a frame whose extraction or submission throws leaves no callback registered.
  For every state, after a failing frame nothing is registered and neither the workers nor
  the React state have changed; in the run below the frame at 0.04 fails and the frames at
  0.08 and 0.12 are never submitted, although all four are when none fails.
\<close>

theorem frame_failure_stops_loop:
  "frameCallbacks (videoElement (step (Frame t False) s)) = [] \<and>
   runs (step (Frame t False) s) = runs s \<and>
   state (step (Frame t False) s) = state s \<and>
   posted (runs (run_events
       (until_playback 10 @ [Frame 0 True, Frame 0.04 False, Frame 0.08 True, Frame 0.12 True])
       (init True)) ! 0) = [INIT, CALIBRATE, PROCESS_FRAME 0] \<and>
   posted (runs (run_events
       (until_playback 10 @ [Frame 0 True, Frame 0.04 True, Frame 0.08 True, Frame 0.12 True])
       (init True)) ! 0) =
     [INIT, CALIBRATE, PROCESS_FRAME 0, PROCESS_FRAME 0.04, PROCESS_FRAME 0.08, PROCESS_FRAME 0.12]"
proof -
  have "posted (runs (run_events
       (until_playback 10 @ [Frame 0 True, Frame 0.04 False, Frame 0.08 True, Frame 0.12 True])
       (init True)) ! 0) = [INIT, CALIBRATE, PROCESS_FRAME 0]" by code_simp
  moreover have "posted (runs (run_events
       (until_playback 10 @ [Frame 0 True, Frame 0.04 True, Frame 0.08 True, Frame 0.12 True])
       (init True)) ! 0) =
     [INIT, CALIBRATE, PROCESS_FRAME 0, PROCESS_FRAME 0.04, PROCESS_FRAME 0.08, PROCESS_FRAME 0.12]"
    by code_simp
  ultimately show ?thesis by (simp add: fold_loop_failed)
qed

text \<open>
  Claim C6 fails on the code: \<open>video.onerror\<close> rejects the promise that
  \<open>startVideoProcessing\<close> awaits, and nothing catches the rejection. For every state, a
  playback error leaves the React state, the workers and \<open>workerRef\<close> unchanged; in the run
  below the error arrives during processing, and afterwards the status is still
  \<open>processing\<close>, \<open>isProcessing\<close> is still true, the worker is not terminated, and the
  invocation has ended in an unhandled rejection.
\<close>

theorem playback_error_not_surfaced:
  "state (step VideoError s) = state s \<and>
   runs (step VideoError s) = runs s \<and>
   workerRef (step VideoError s) = workerRef s \<and>
   status (state (run_events (until_playback 10 @ [Frame 0 True, VideoError]) (init True))) = processing \<and>
   isProcessing (state (run_events (until_playback 10 @ [Frame 0 True, VideoError]) (init True))) \<and>
   \<not> terminated (runs (run_events (until_playback 10 @ [Frame 0 True, VideoError]) (init True)) ! 0) \<and>
   workerRef (run_events (until_playback 10 @ [Frame 0 True, VideoError]) (init True)) = Some 0 \<and>
   p_phase (invocations (run_events (until_playback 10 @ [Frame 0 True, VideoError]) (init True)) ! 0)
     = Rejected"
proof -
  have "status (state (run_events (until_playback 10 @ [Frame 0 True, VideoError]) (init True))) = processing"
    by code_simp
  moreover have "isProcessing (state (run_events (until_playback 10 @ [Frame 0 True, VideoError]) (init True)))"
    by code_simp
  moreover have "\<not> terminated (runs (run_events (until_playback 10 @ [Frame 0 True, VideoError]) (init True)) ! 0)"
    by code_simp
  moreover have "workerRef (run_events (until_playback 10 @ [Frame 0 True, VideoError]) (init True)) = Some 0"
    by code_simp
  moreover have "p_phase (invocations (run_events (until_playback 10 @ [Frame 0 True, VideoError]) (init True)) ! 0)
     = Rejected" by code_simp
  ultimately show ?thesis by (simp split: option.splits)
qed

text \<open>
  Claim C7, as amended. Within one run (after a call of \<open>processVideo\<close>, over any earlier
  history), for a video of positive duration \<open>d\<close> whose media times do not go backwards:
  the values reported by the frame loop never decrease; each is
  \<open>Math.min(100, Math.round((t / d) * 100))\<close>, in double precision, for the media time \<open>t\<close>
  of a presented frame, hence at most 100. The cadence: with one loop registered for a run
  that is not aborted, a submitted frame increments the loop's frame counter and reports
  exactly when the new count is a multiple of 30, and a failing frame does neither.
  Completion: a step that makes the status \<open>completed\<close> leaves progress at exactly 100.
\<close>

theorem progress_reports_in_order:
  assumes "0 < d" and "playback d 0 es"
  shows "(let s = run_events (earlier @ ProcessVideo vUrl rUrl # es) (init ctx)
          in sorted (loop_reports s) \<and>
             (\<forall>p \<in> set (loop_reports s). p \<le> 100 \<and> p \<in> percent d ` set (frame_times es))) \<and>
         (frameCallbacks (videoElement x) = [a] \<and> a < length (invocations x) \<and>
          \<not> aborted (runs x ! p_run (invocations x ! a)) \<longrightarrow>
            frameCount (invocations (step (Frame t True) x) ! a) = frameCount (invocations x ! a) + 1 \<and>
            reported (step (Frame t True) x) =
              reported x @ (if (frameCount (invocations x ! a) + 1) mod 30 = 0
                            then [(FromLoop, percent (duration (videoElement x)) t)] else []) \<and>
            frameCount (invocations (step (Frame t False) x) ! a) = frameCount (invocations x ! a) \<and>
            reported (step (Frame t False) x) = reported x) \<and>
         (status (state (step e y)) = completed \<and> status (state y) \<noteq> completed \<longrightarrow>
            progress (state (step e y)) = 100)"
proof -
  let ?before = "run_events earlier (init ctx)"
  let ?after = "run_events es (processVideo vUrl rUrl ?before)"
  have eq: "run_events (earlier @ ProcessVideo vUrl rUrl # es) (init ctx) = ?after"
    by (simp add: run_events_append run_events_Cons)
  have "playing d 0 {} (processVideo vUrl rUrl ?before)"
    by (rule playing_processVideo [OF coherent_reachable])
  from playback_reports_ok [OF assms(2,1) _ this]
  have "reports_ok d (set (frame_times es)) ?after" by simp
  then have trace: "sorted (loop_reports ?after) \<and>
             (\<forall>p \<in> set (loop_reports ?after). p \<le> 100 \<and> p \<in> percent d ` set (frame_times es))"
    unfolding reports_ok_def using percent_le by fastforce
  have cadence: "frameCount (invocations (step (Frame t True) x) ! a) = frameCount (invocations x ! a) + 1 \<and>
            reported (step (Frame t True) x) =
              reported x @ (if (frameCount (invocations x ! a) + 1) mod 30 = 0
                            then [(FromLoop, percent (duration (videoElement x)) t)] else []) \<and>
            frameCount (invocations (step (Frame t False) x) ! a) = frameCount (invocations x ! a) \<and>
            reported (step (Frame t False) x) = reported x"
    if "frameCallbacks (videoElement x) = [a]" "a < length (invocations x)"
       "\<not> aborted (runs x ! p_run (invocations x ! a))"
    using that by (simp add: loop_def Let_def ops nth_update_at length_update_at percent_def)
  have completion: "progress (state (step e y)) = 100"
    if "status (state (step e y)) = completed" "status (state y) \<noteq> completed"
    using completion_sets_100 [OF that(1)] that(2) by simp
  from trace cadence completion show ?thesis unfolding Let_def eq by blast
qed

theorem progress_reports_in_order_witness:
  "(0 :: real) < 10 \<and>
   playback 10 0 (tl (until_playback 10) @ frames_until 30 3 @ frames_until 30 7 @ [Ended]) \<and>
   reported (run_events (until_playback 10 @ frames_until 30 3 @ frames_until 30 7 @ [Ended]) (init True)) =
     [(Reset, 0), (FromLoop, 30), (FromLoop, 70), (OnCompletion, 100)] \<and>
   sorted (loop_reports
     (run_events (until_playback 10 @ frames_until 30 3 @ frames_until 30 7 @ [Ended]) (init True))) \<and>
   frameCallbacks (videoElement (run_events (until_playback 10 @ frames_until 29 1) (init True))) = [0] \<and>
   frameCount (invocations (run_events (until_playback 10 @ frames_until 29 1) (init True)) ! 0) = 29 \<and>
   \<not> aborted (runs (run_events (until_playback 10 @ frames_until 29 1) (init True)) !
                 p_run (invocations (run_events (until_playback 10 @ frames_until 29 1) (init True)) ! 0)) \<and>
   reported (step (Frame 3 True) (run_events (until_playback 10 @ frames_until 29 1) (init True))) =
     [(Reset, 0), (FromLoop, 30)] \<and>
   reported (step (Frame 3 False) (run_events (until_playback 10 @ frames_until 29 1) (init True))) =
     [(Reset, 0)] \<and>
   status (state (run_events (until_playback 10 @ frames_until 30 3) (init True))) = processing \<and>
   status (state (step Ended (run_events (until_playback 10 @ frames_until 30 3) (init True)))) = completed \<and>
   progress (state (step Ended (run_events (until_playback 10 @ frames_until 30 3) (init True)))) = 100"
proof -
  have d: "(0 :: real) < 10" by simp
  have p: "playback 10 0 (tl (until_playback 10) @ frames_until 30 3 @ frames_until 30 7 @ [Ended])"
    by code_simp
  have e: "[] @ ProcessVideo ''video'' ''reference'' #
             tl (until_playback 10) @ frames_until 30 3 @ frames_until 30 7 @ [Ended]
             = until_playback 10 @ frames_until 30 3 @ frames_until 30 7 @ [Ended]"
    by (simp add: until_playback_def)
  have r: "reported (run_events (until_playback 10 @ frames_until 30 3 @ frames_until 30 7 @ [Ended])
                       (init True)) =
     [(Reset, 0), (FromLoop, 30), (FromLoop, 70), (OnCompletion, 100)]"
    by code_simp
  let ?x = "run_events (until_playback 10 @ frames_until 29 1) (init True)"
  let ?y = "run_events (until_playback 10 @ frames_until 30 3) (init True)"
  have x1: "frameCallbacks (videoElement ?x) = [0]" by code_simp
  have x2: "0 < length (invocations ?x)" by code_simp
  have x3: "\<not> aborted (runs ?x ! p_run (invocations ?x ! 0))" by code_simp
  have x4: "frameCount (invocations ?x ! 0) = 29" by code_simp
  have x5: "reported ?x = [(Reset, 0)]" by code_simp
  have x6: "duration (videoElement ?x) = 10" by code_simp
  have x7: "percent 10 3 = 30" by code_simp
  have y1: "status (state ?y) = processing" by code_simp
  have y2: "status (state (step Ended ?y)) = completed" by code_simp
  note inst = progress_reports_in_order
         [OF d p, where earlier = "[]" and vUrl = "''video''" and rUrl = "''reference''" and ctx = True
                    and x = "run_events (until_playback 10 @ frames_until 29 1) (init True)"
                    and a = 0 and t = 3 and e = Ended
                    and y = "run_events (until_playback 10 @ frames_until 30 3) (init True)"]
  from inst have trace: "sorted (loop_reports
     (run_events (until_playback 10 @ frames_until 30 3 @ frames_until 30 7 @ [Ended]) (init True)))"
    unfolding Let_def e by blast
  from inst x1 x2 x3
  have "reported (step (Frame 3 True) ?x) =
          reported ?x @ (if (frameCount (invocations ?x ! 0) + 1) mod 30 = 0
                         then [(FromLoop, percent (duration (videoElement ?x)) 3)] else []) \<and>
        reported (step (Frame 3 False) ?x) = reported ?x" by blast
  then have cad: "reported (step (Frame 3 True) ?x) = [(Reset, 0), (FromLoop, 30)] \<and>
                  reported (step (Frame 3 False) ?x) = [(Reset, 0)]"
    unfolding x4 x5 x6 x7 by simp
  from inst y1 y2 have fin: "progress (state (step Ended ?y)) = 100" by simp
  from d p r trace x1 x3 x4 cad y1 y2 fin show ?thesis by simp
qed

text \<open>
  Claim C7, as stated, fails in two ways. Reported values need not strictly increase: for a
  video of 1000 seconds the reports at frame 30 (media time 1) and frame 60 (media time 2)
  are both 0, as is the reset before them. And progress need not stay at 100 once the status
  is \<open>completed\<close>: the loop has no completion check, so a frame callback registered before
  the end and run after it reports its own value (here 30, after 100).
\<close>

theorem progress_strictly_increasing_counterexample:
  "reported (run_events (until_playback 1000 @ frames_until 30 1 @ frames_until 30 2) (init True))
     = [(Reset, 0), (FromLoop, 0), (FromLoop, 0)] \<and>
   \<not> sorted_wrt (<) (map snd
       (reported (run_events (until_playback 1000 @ frames_until 30 1 @ frames_until 30 2) (init True)))) \<and>
   reported (run_events (until_playback 10 @ frames_until 29 1 @ [Ended, Frame 3 True]) (init True))
     = [(Reset, 0), (OnCompletion, 100), (FromLoop, 30)] \<and>
   status (state (run_events (until_playback 10 @ frames_until 29 1 @ [Ended, Frame 3 True]) (init True)))
     = completed \<and>
   progress (state (run_events (until_playback 10 @ frames_until 29 1 @ [Ended, Frame 3 True]) (init True)))
     = 30"
  by code_simp

text \<open>
  Claim C8. In every reachable state, a \<open>CALIBRATION_FAILED\<close> message of a worker that has
  not been terminated sets the status to \<open>processing\<close> (whatever it was, \<open>calibrating\<close>
  included); a message of a terminated worker is not delivered and changes nothing. So the
  message never sets the status to \<open>error\<close>.
\<close>

theorem calibration_failed_then_processing:
  "(r < length (runs (run_events es (init ctx))) \<and>
    \<not> terminated (runs (run_events es (init ctx)) ! r) \<longrightarrow>
      status (state (step (WorkerMessage r CALIBRATION_FAILED) (run_events es (init ctx)))) = processing) \<and>
   (\<not> (r < length (runs (run_events es (init ctx))) \<and>
       \<not> terminated (runs (run_events es (init ctx)) ! r)) \<longrightarrow>
      step (WorkerMessage r CALIBRATION_FAILED) (run_events es (init ctx)) = run_events es (init ctx))"
proof -
  let ?after = "run_events es (init ctx)"
  have "status (state (step (WorkerMessage r CALIBRATION_FAILED) ?after)) = processing"
    if "r < length (runs ?after)" "\<not> terminated (runs ?after ! r)"
  proof -
    from alive_not_aborted [OF coherent_reachable that] have "\<not> aborted (runs ?after ! r)" .
    with that show ?thesis by (simp add: ops Let_def)
  qed
  then show ?thesis by auto
qed

theorem calibration_failed_then_processing_witness:
  "0 < length (runs (run_events [ProcessVideo ''video'' ''reference'', WorkerMessage 0 READY,
                                 ImageSettled 0 True] (init True))) \<and>
   \<not> terminated (runs (run_events [ProcessVideo ''video'' ''reference'', WorkerMessage 0 READY,
                                    ImageSettled 0 True] (init True)) ! 0) \<and>
   status (state (run_events [ProcessVideo ''video'' ''reference'', WorkerMessage 0 READY,
                              ImageSettled 0 True] (init True))) = calibrating \<and>
   status (state (step (WorkerMessage 0 CALIBRATION_FAILED)
      (run_events [ProcessVideo ''video'' ''reference'', WorkerMessage 0 READY,
                   ImageSettled 0 True] (init True)))) = processing \<and>
   terminated (runs (run_events (until_playback 10 @ [Ended]) (init True)) ! 0) \<and>
   step (WorkerMessage 0 CALIBRATION_FAILED) (run_events (until_playback 10 @ [Ended]) (init True)) =
     run_events (until_playback 10 @ [Ended]) (init True)"
proof -
  have l: "0 < length (runs (run_events [ProcessVideo ''video'' ''reference'', WorkerMessage 0 READY,
                                 ImageSettled 0 True] (init True)))" by code_simp
  have t: "\<not> terminated (runs (run_events [ProcessVideo ''video'' ''reference'', WorkerMessage 0 READY,
                                    ImageSettled 0 True] (init True)) ! 0)" by code_simp
  have c: "status (state (run_events [ProcessVideo ''video'' ''reference'', WorkerMessage 0 READY,
                              ImageSettled 0 True] (init True))) = calibrating" by code_simp
  from calibration_failed_then_processing
          [of 0 "[ProcessVideo ''video'' ''reference'', WorkerMessage 0 READY, ImageSettled 0 True]" True]
       l t
  have "status (state (step (WorkerMessage 0 CALIBRATION_FAILED)
      (run_events [ProcessVideo ''video'' ''reference'', WorkerMessage 0 READY,
                   ImageSettled 0 True] (init True)))) = processing" by blast
  note delivered = this
  have u: "terminated (runs (run_events (until_playback 10 @ [Ended]) (init True)) ! 0)" by code_simp
  from calibration_failed_then_processing [of 0 "until_playback 10 @ [Ended]" True] u
  have "step (WorkerMessage 0 CALIBRATION_FAILED) (run_events (until_playback 10 @ [Ended]) (init True)) =
     run_events (until_playback 10 @ [Ended]) (init True)" by blast
  with l t c delivered u show ?thesis by simp
qed

section \<open>Proofs: rendering hook\<close>

subsection \<open>The rendering hook keeps its temporary files out of the file system\<close>

lemma fold_on_progress_files: "files (fold (on_progress env) ps s) = files s"
  by (induction ps arbitrary: s) (simp_all add: on_progress_def setProcessorState_def)

lemma fold_on_progress_fields:
  "isReady (pstate (fold (on_progress env) ps s)) = isReady (pstate s)"
  "error' (pstate (fold (on_progress env) ps s)) = error' (pstate s)"
  "ffmpegRef (fold (on_progress env) ps s) = ffmpegRef s"
  by (induction ps arbitrary: s; simp add: on_progress_def setProcessorState_def)+

lemma try_block_files:
  "files (snd (try_block env s)) \<subseteq> files s \<union> {inputName, outputName}"
  "outputName \<in> files (snd (try_block env s)) \<Longrightarrow> outputName \<notin> files s \<Longrightarrow>
     inputName \<in> files (snd (try_block env s))"
  by (auto simp: try_block_def Let_def setProcessorState_def fold_on_progress_files
           split: option.splits if_splits)

lemma try_block_fields:
  "isReady (pstate (snd (try_block env s))) = isReady (pstate s)"
  "error' (pstate (snd (try_block env s))) = error' (pstate s)"
  "ffmpegRef (snd (try_block env s)) = ffmpegRef s"
  by (auto simp: try_block_def Let_def setProcessorState_def fold_on_progress_fields
           split: option.splits)

lemma finally_block_state:
  "isProcessing' (pstate (finally_block s)) = False"
  "progress' (pstate (finally_block s)) = 100"
  "status' (pstate (finally_block s)) = ''Completed''"
  "error' (pstate (finally_block s)) = error' (pstate s)"
  "isReady (pstate (finally_block s)) = isReady (pstate s)"
  "ffmpegRef (finally_block s) = ffmpegRef s"
  by (simp_all add: finally_block_def Let_def setProcessorState_def)

lemma finally_block_files:
  "inputName \<notin> files (finally_block s)"
  "outputName \<in> files s \<longrightarrow> inputName \<in> files s \<Longrightarrow> outputName \<notin> files (finally_block s)"
  "files (finally_block s) \<subseteq> files s"
  by (auto simp: finally_block_def Let_def setProcessorState_def)

lemma processVideo_ready:
  assumes "ffmpegRef s" and "isReady (pstate s)" and "tidy s"
  shows "isProcessing' (pstate (snd (useVideoProcessor_processVideo env s))) = False"
    and "progress' (pstate (snd (useVideoProcessor_processVideo env s))) = 100"
    and "status' (pstate (snd (useVideoProcessor_processVideo env s))) = ''Completed''"
    and "tidy (snd (useVideoProcessor_processVideo env s))"
    and "fst (useVideoProcessor_processVideo env s) = None \<longleftrightarrow>
           error' (pstate (snd (useVideoProcessor_processVideo env s))) = Some ''Video processing failed.''"
    and "fst (useVideoProcessor_processVideo env s) \<noteq> None \<longleftrightarrow>
           error' (pstate (snd (useVideoProcessor_processVideo env s))) = None"
proof -
  let ?s1 = "setProcessorState
               (\<lambda>prev. prev\<lparr>isProcessing' := True, progress' := 0, error' := None,
                            status' := ''Writing file to memory...''\<rparr>) s"
  obtain r s2 where tb: "try_block env ?s1 = (r, s2)" by (cases "try_block env ?s1")
  have f1: "files ?s1 = files s" and e1: "error' (pstate ?s1) = None"
    by (simp_all add: setProcessorState_def)
  from try_block_files [of env ?s1] try_block_fields [of env ?s1] tb f1 e1 assms(3)
  have out: "outputName \<in> files s2 \<longrightarrow> inputName \<in> files s2" and e2: "error' (pstate s2) = None"
    by (auto simp: tidy_def)
  let ?s3 = "setProcessorState (\<lambda>prev. prev\<lparr>error' := Some ''Video processing failed.'',
                                               status' := ''Error''\<rparr>) s2"
  have out3: "outputName \<in> files ?s3 \<longrightarrow> inputName \<in> files ?s3"
    using out by (simp add: setProcessorState_def)
  have e3: "error' (pstate ?s3) = Some ''Video processing failed.''"
    by (simp add: setProcessorState_def)
  have res: "useVideoProcessor_processVideo env s =
       (case r of Inr url \<Rightarrow> (Some url, finally_block s2) | Inl u \<Rightarrow> (None, finally_block ?s3))"
    using assms(1,2) tb by (simp add: useVideoProcessor_processVideo_def Let_def split: sum.splits)
  show "isProcessing' (pstate (snd (useVideoProcessor_processVideo env s))) = False"
    and "progress' (pstate (snd (useVideoProcessor_processVideo env s))) = 100"
    and "status' (pstate (snd (useVideoProcessor_processVideo env s))) = ''Completed''"
    and "tidy (snd (useVideoProcessor_processVideo env s))"
    and "fst (useVideoProcessor_processVideo env s) = None \<longleftrightarrow>
           error' (pstate (snd (useVideoProcessor_processVideo env s))) = Some ''Video processing failed.''"
    and "fst (useVideoProcessor_processVideo env s) \<noteq> None \<longleftrightarrow>
           error' (pstate (snd (useVideoProcessor_processVideo env s))) = None"
    unfolding res
    using finally_block_files(1) finally_block_files(2) [OF out] finally_block_files(2) [OF out3] e2 e3
    by (cases r; simp add: finally_block_state tidy_def)+
qed

lemma processVideo_not_ready:
  assumes "\<not> (ffmpegRef s \<and> isReady (pstate s))"
  shows "useVideoProcessor_processVideo env s =
           (None, s\<lparr>pstate := (pstate s)\<lparr>error' := Some ''Engine not ready''\<rparr>\<rparr>)"
  using assms by (auto simp: useVideoProcessor_processVideo_def setProcessorState_def)

lemma tidy_step: "tidy s \<Longrightarrow> tidy (processor_step e s)"
proof (cases e)
  case Effect
  assume "tidy s" then show ?thesis using Effect by (simp add: effect_def tidy_def)
next
  case (LoadSettled r)
  assume "tidy s" then show ?thesis using LoadSettled
    by (simp add: load_settled_def setProcessorState_def tidy_def split: option.splits)
next
  case (Call env)
  assume t: "tidy s"
  show ?thesis
  proof (cases "ffmpegRef s \<and> isReady (pstate s)")
    case True
    with processVideo_ready(4) [of s env] t Call show ?thesis by simp
  next
    case False
    from processVideo_not_ready [OF False, of env] t Call show ?thesis by (simp add: tidy_def)
  qed
qed

lemma tidy_reachable: "tidy (processor_run es processor_init)"
proof (induction es rule: rev_induct)
  case Nil
  show ?case by (simp add: processor_run_def processor_init_def tidy_def)
next
  case (snoc e es)
  then show ?case using tidy_step [of "processor_run es processor_init" e]
    by (simp add: processor_run_def)
qed

subsection \<open>Claim about the rendering hook\<close>

text \<open>
  Claim C10, as amended. In every state the hook reaches, a call of \<open>processVideo\<close> that
  passes the guard (the engine object exists and \<open>isReady\<close> holds) ends, whether rendering
  succeeded or failed, with \<open>isProcessing = false\<close>, \<open>progress = 100\<close> and
  \<open>status = 'Completed'\<close>, and with neither temporary file left in the engine's file system;
  it returns \<open>null\<close> exactly when the \<open>error\<close> field holds \<open>'Video processing failed.'\<close>, and
  a URL exactly when the \<open>error\<close> field is \<open>null\<close>. A call that does not pass the guard
  returns \<open>null\<close> and changes nothing but the \<open>error\<close> field, set to \<open>'Engine not ready'\<close>.
\<close>

theorem processVideo_final_state:
  "(ffmpegRef (processor_run es processor_init) \<and> isReady (pstate (processor_run es processor_init)) \<longrightarrow>
      isProcessing' (pstate (snd (useVideoProcessor_processVideo env (processor_run es processor_init))))
        = False \<and>
      progress' (pstate (snd (useVideoProcessor_processVideo env (processor_run es processor_init))))
        = 100 \<and>
      status' (pstate (snd (useVideoProcessor_processVideo env (processor_run es processor_init))))
        = ''Completed'' \<and>
      inputName \<notin> files (snd (useVideoProcessor_processVideo env (processor_run es processor_init))) \<and>
      outputName \<notin> files (snd (useVideoProcessor_processVideo env (processor_run es processor_init))) \<and>
      (fst (useVideoProcessor_processVideo env (processor_run es processor_init)) = None \<longleftrightarrow>
         error' (pstate (snd (useVideoProcessor_processVideo env (processor_run es processor_init))))
           = Some ''Video processing failed.'') \<and>
      (fst (useVideoProcessor_processVideo env (processor_run es processor_init)) \<noteq> None \<longleftrightarrow>
         error' (pstate (snd (useVideoProcessor_processVideo env (processor_run es processor_init))))
           = None)) \<and>
   (\<not> (ffmpegRef (processor_run es processor_init) \<and>
        isReady (pstate (processor_run es processor_init))) \<longrightarrow>
      useVideoProcessor_processVideo env (processor_run es processor_init) =
        (None, (processor_run es processor_init)
                 \<lparr>pstate := (pstate (processor_run es processor_init))
                              \<lparr>error' := Some ''Engine not ready''\<rparr>\<rparr>))"
proof -
  let ?s = "processor_run es processor_init"
  have t: "tidy ?s" by (rule tidy_reachable)
  show ?thesis
  proof (cases "ffmpegRef ?s \<and> isReady (pstate ?s)")
    case True
    then have r: "ffmpegRef ?s" "isReady (pstate ?s)" by simp_all
    from processVideo_ready [OF r t, of env] True show ?thesis by (simp add: tidy_def)
  next
    case False
    from processVideo_not_ready [OF False, of env] False show ?thesis by simp
  qed
qed

theorem processVideo_final_state_witness:
  "ffmpegRef (processor_run [Effect, LoadSettled None, Call render_succeeds] processor_init) \<and>
   isReady (pstate (processor_run [Effect, LoadSettled None, Call render_succeeds] processor_init)) \<and>
   fst (useVideoProcessor_processVideo exec_fails
          (processor_run [Effect, LoadSettled None, Call render_succeeds] processor_init)) = None \<and>
   pstate (snd (useVideoProcessor_processVideo exec_fails
          (processor_run [Effect, LoadSettled None, Call render_succeeds] processor_init))) =
     \<lparr>isReady = True, isProcessing' = False, progress' = 100, status' = ''Completed'',
      error' = Some ''Video processing failed.''\<rparr> \<and>
   files (snd (useVideoProcessor_processVideo exec_fails
          (processor_run [Effect, LoadSettled None, Call render_succeeds] processor_init))) = {} \<and>
   fst (useVideoProcessor_processVideo render_succeeds
          (processor_run [Effect, LoadSettled None, Call render_succeeds] processor_init)) = Some ''blob:out'' \<and>
   status' (pstate (snd (useVideoProcessor_processVideo render_succeeds
          (processor_run [Effect, LoadSettled None, Call render_succeeds] processor_init)))) = ''Completed'' \<and>
   \<not> isReady (pstate (processor_run [Effect, LoadSettled (Some ''no network'')] processor_init)) \<and>
   fst (useVideoProcessor_processVideo write_fails
          (processor_run [Effect, LoadSettled (Some ''no network'')] processor_init)) = None \<and>
   error' (pstate (snd (useVideoProcessor_processVideo write_fails
          (processor_run [Effect, LoadSettled (Some ''no network'')] processor_init)))) =
     Some ''Engine not ready''"
proof -
  have 1: "ffmpegRef (processor_run [Effect, LoadSettled None, Call render_succeeds] processor_init)"
    by code_simp
  have 2: "isReady (pstate (processor_run [Effect, LoadSettled None, Call render_succeeds] processor_init))"
    by code_simp
  have 3: "fst (useVideoProcessor_processVideo exec_fails
          (processor_run [Effect, LoadSettled None, Call render_succeeds] processor_init)) = None"
    by code_simp
  have 4: "pstate (snd (useVideoProcessor_processVideo exec_fails
          (processor_run [Effect, LoadSettled None, Call render_succeeds] processor_init))) =
     \<lparr>isReady = True, isProcessing' = False, progress' = 100, status' = ''Completed'',
      error' = Some ''Video processing failed.''\<rparr>" by code_simp
  have 5: "files (snd (useVideoProcessor_processVideo exec_fails
          (processor_run [Effect, LoadSettled None, Call render_succeeds] processor_init))) = {}"
    by code_simp
  have 6: "fst (useVideoProcessor_processVideo render_succeeds
          (processor_run [Effect, LoadSettled None, Call render_succeeds] processor_init)) = Some ''blob:out''"
    by code_simp
  from processVideo_final_state [of "[Effect, LoadSettled None, Call render_succeeds]" render_succeeds] 1 2
  have 7: "status' (pstate (snd (useVideoProcessor_processVideo render_succeeds
          (processor_run [Effect, LoadSettled None, Call render_succeeds] processor_init)))) = ''Completed''"
    by blast
  have 8: "\<not> isReady (pstate (processor_run [Effect, LoadSettled (Some ''no network'')] processor_init))"
    by code_simp
  from processVideo_final_state [of "[Effect, LoadSettled (Some ''no network'')]" write_fails] 8
  have "useVideoProcessor_processVideo write_fails
          (processor_run [Effect, LoadSettled (Some ''no network'')] processor_init) =
        (None, (processor_run [Effect, LoadSettled (Some ''no network'')] processor_init)
                 \<lparr>pstate := (pstate (processor_run [Effect, LoadSettled (Some ''no network'')] processor_init))
                              \<lparr>error' := Some ''Engine not ready''\<rparr>\<rparr>)" by blast
  then have 9: "fst (useVideoProcessor_processVideo write_fails
          (processor_run [Effect, LoadSettled (Some ''no network'')] processor_init)) = None \<and>
     error' (pstate (snd (useVideoProcessor_processVideo write_fails
          (processor_run [Effect, LoadSettled (Some ''no network'')] processor_init)))) =
     Some ''Engine not ready''" by simp
  from 1 2 3 4 5 6 7 8 9 show ?thesis by blast
qed

text \<open>
  Claim C10, as stated, fails for a call made before the engine is ready: it returns at the
  guard, and the state keeps \<open>progress = 0\<close> and the status \<open>'Loading engine...'\<close>.
\<close>

theorem processVideo_not_ready_counterexample:
  "fst (useVideoProcessor_processVideo render_succeeds (processor_run [Effect] processor_init)) = None \<and>
   pstate (snd (useVideoProcessor_processVideo render_succeeds (processor_run [Effect] processor_init))) =
     \<lparr>isReady = False, isProcessing' = False, progress' = 0, status' = ''Loading engine...'',
      error' = Some ''Engine not ready''\<rparr> \<and>
   status' (pstate (snd (useVideoProcessor_processVideo render_succeeds
                           (processor_run [Effect] processor_init)))) \<noteq> ''Completed'' \<and>
   progress' (pstate (snd (useVideoProcessor_processVideo render_succeeds
                           (processor_run [Effect] processor_init)))) \<noteq> 100"
  by code_simp

end
